theory Spec2Isabelle
  imports Main "HOL-Library.AList"
begin

section \<open>Python strings\<close>

text \<open>
  A Python \<open>str\<close> is modelled as a \<open>string\<close>, a character outside ASCII being
  carried as the bytes of its UTF-8 encoding. The case and whitespace functions below are
  Python's on ASCII strings only (\<open>isascii\<close>, code points below 128): there
  \<open>str.isspace\<close> holds of TAB, LF, VT, FF, CR, the four separators 0x1C..0x1F and the
  space, \<open>str.upper\<close> and \<open>str.lower\<close> move the 26 letters, and every other
  character is neither whitespace nor cased. Outside ASCII they leave every byte alone,
  where Python also uppercases and title-cases the letters of other alphabets and treats
  characters such as U+00A0 as whitespace; so every statement below about the value of
  \<open>upper\<close>, \<open>strip\<close>, \<open>title_str\<close> or \<open>collapse_ws\<close> is made for ASCII
  strings. Splitting at a given ASCII character and replacing one ASCII character by
  another act on the UTF-8 bytes as Python acts on the characters.
\<close>


definition ascii_lowercase :: string where
  "ascii_lowercase = ''abcdefghijklmnopqrstuvwxyz''"

definition ascii_uppercase :: string where
  "ascii_uppercase = ''ABCDEFGHIJKLMNOPQRSTUVWXYZ''"

definition whitespace :: string where
  "whitespace = [CHR 0x09, CHR 0x0A, CHR 0x0B, CHR 0x0C, CHR 0x0D,
                 CHR 0x1C, CHR 0x1D, CHR 0x1E, CHR 0x1F, CHR '' '']"

definition isspace :: "char \<Rightarrow> bool" where
  "isspace c = (c \<in> set whitespace)"

definition islower :: "char \<Rightarrow> bool" where
  "islower c = (c \<in> set ascii_lowercase)"

definition isupper :: "char \<Rightarrow> bool" where
  "isupper c = (c \<in> set ascii_uppercase)"

definition upper_char :: "char \<Rightarrow> char" where
  "upper_char c = (case map_of (zip ascii_lowercase ascii_uppercase) c of
                     Some u \<Rightarrow> u | None \<Rightarrow> c)"

definition lower_char :: "char \<Rightarrow> char" where
  "lower_char c = (case map_of (zip ascii_uppercase ascii_lowercase) c of
                     Some l \<Rightarrow> l | None \<Rightarrow> c)"

text \<open>\<open>s.upper()\<close> and \<open>s.lower()\<close>.\<close>

definition upper :: "string \<Rightarrow> string" where
  "upper s = map upper_char s"

definition lower :: "string \<Rightarrow> string" where
  "lower s = map lower_char s"

text \<open>\<open>s.strip()\<close>: whitespace is dropped from both ends.\<close>

definition lstrip :: "string \<Rightarrow> string" where
  "lstrip s = dropWhile isspace s"

definition rstrip :: "string \<Rightarrow> string" where
  "rstrip s = rev (dropWhile isspace (rev s))"

definition strip :: "string \<Rightarrow> string" where
  "strip s = rstrip (lstrip s)"

text \<open>
  \<open>s.title()\<close>: a cased character is uppercased when the character before it is not
  cased (or there is none) and lowercased otherwise; an uncased character is kept. The flag
  is CPython's \<open>previous_is_cased\<close>.
\<close>

fun title_from :: "bool \<Rightarrow> string \<Rightarrow> string" where
  "title_from previous_is_cased [] = []"
| "title_from previous_is_cased (c # cs) =
     (if islower c \<or> isupper c
      then (if previous_is_cased then lower_char c else upper_char c) # title_from True cs
      else c # title_from False cs)"

definition title_str :: "string \<Rightarrow> string" where
  "title_str s = title_from False s"

text \<open>\<open>re.sub(r"\s+", " ", s)\<close>: every maximal run of whitespace becomes one space.\<close>

function collapse_ws :: "string \<Rightarrow> string" where
  "collapse_ws [] = []"
| "collapse_ws (c # cs) =
     (if isspace c then CHR '' '' # collapse_ws (dropWhile isspace cs)
      else c # collapse_ws cs)"
  by pat_completeness auto
termination
  by (relation "measure length") (auto simp: less_Suc_eq_le length_dropWhile_le)

text \<open>\<open>s.replace(a, b)\<close> for single characters \<open>a\<close> and \<open>b\<close>.\<close>

definition replace_char :: "char \<Rightarrow> char \<Rightarrow> string \<Rightarrow> string" where
  "replace_char a b s = map (\<lambda>c. if c = a then b else c) s"

text \<open>
  \<open>s.split(sep, maxsplit)\<close> for a single character \<open>sep\<close>: the string is cut at the
  first \<open>maxsplit\<close> occurrences of \<open>sep\<close>, the rest is the last part.
\<close>

fun split_max :: "char \<Rightarrow> nat \<Rightarrow> string \<Rightarrow> string list" where
  "split_max sep 0 s = [s]"
| "split_max sep (Suc n) s =
     (if sep \<in> set s
      then takeWhile (\<lambda>c. c \<noteq> sep) s # split_max sep n (tl (dropWhile (\<lambda>c. c \<noteq> sep) s))
      else [s])"

text \<open>\<open>sub in s\<close>: \<open>sub\<close> occurs in \<open>s\<close> as a contiguous substring.\<close>

fun startswith :: "string \<Rightarrow> string \<Rightarrow> bool" where
  "startswith s [] = True"
| "startswith [] (p # ps) = False"
| "startswith (c # cs) (p # ps) = (c = p \<and> startswith cs ps)"

fun contains :: "string \<Rightarrow> string \<Rightarrow> bool" where
  "contains [] sub = (sub = [])"
| "contains (c # cs) sub = (startswith (c # cs) sub \<or> contains cs sub)"

section \<open>Location keys (utils/location.py)\<close>

text \<open>An \<open>Optional[str]\<close> is a \<open>string option\<close>; \<open>x or ""\<close> reads it.\<close>

definition or_empty :: "string option \<Rightarrow> string" where
  "or_empty x = (case x of None \<Rightarrow> [] | Some s \<Rightarrow> s)"

definition clean_city :: "string \<Rightarrow> string" where
  "clean_city city =
     (let city = strip city in
      if city = [] then []
      else replace_char CHR '' '' CHR ''_'' (title_str (collapse_ws city)))"

definition normalize_location ::
  "string option \<Rightarrow> string option \<Rightarrow> string option \<Rightarrow> string option" where
  "normalize_location country state city =
     (let c = upper (strip (or_empty country));
          s = upper (strip (or_empty state));
          ci = clean_city (or_empty city)
      in if c = [] \<and> s = [] \<and> ci = [] then None
         else Some (c @ ''-'' @ s @ ''-'' @ ci))"

text \<open>
  The placeholder of \<open>display_location\<close> is the string literal of the source file: the
  three characters U+00E2, U+20AC, U+201D (an em dash whose UTF-8 bytes were read as
  Windows-1252), here as their UTF-8 bytes.
\<close>

definition placeholder :: string where
  "placeholder = [CHR 0xC3, CHR 0xA2, CHR 0xE2, CHR 0x82, CHR 0xAC, CHR 0xE2, CHR 0x80, CHR 0x9D]"

definition display_location :: "string option \<Rightarrow> string" where
  "display_location key =
     (case key of
        None \<Rightarrow> placeholder
      | Some k \<Rightarrow>
          if k = [] then placeholder
          else (case split_max CHR ''-'' 2 k of
                  [country, state, city] \<Rightarrow>
                    (let city_disp = replace_char CHR ''_'' CHR '' '' city in
                     if state \<noteq> [] then city_disp @ '', '' @ state @ '', '' @ country
                     else city_disp @ '', '' @ country)
                | _ \<Rightarrow> k))"

section \<open>Python values, errors and the Job record\<close>

text \<open>An exception that leaves a function is the left summand of the function's result.\<close>

datatype error = TransportError | ParseError | ValueError

text \<open>
  The scalar values a JSON field can hold, as Python reads them: \<open>None\<close>, a bool, an int
  or a str, with Python's truth value, \<open>a or b\<close> and \<open>str(a)\<close>.
\<close>

datatype pyval = PNone | PBool bool | PInt int | PStr string

fun truthy :: "pyval \<Rightarrow> bool" where
  "truthy PNone = False"
| "truthy (PBool b) = b"
| "truthy (PInt n) = (n \<noteq> 0)"
| "truthy (PStr s) = (s \<noteq> [])"

definition py_or :: "pyval \<Rightarrow> pyval \<Rightarrow> pyval" where
  "py_or a b = (if truthy a then a else b)"

definition digit :: "nat \<Rightarrow> char" where
  "digit d = ''0123456789'' ! d"

function dec :: "nat \<Rightarrow> string" where
  "dec n = (if n < 10 then [digit n] else dec (n div 10) @ [digit (n mod 10)])"
  by pat_completeness auto
termination
  by (relation "measure id") auto

fun py_str :: "pyval \<Rightarrow> string" where
  "py_str PNone = ''None''"
| "py_str (PBool b) = (if b then ''True'' else ''False'')"
| "py_str (PInt n) = (if n < 0 then CHR ''-'' # dec (nat (- n)) else dec (nat n))"
| "py_str (PStr s) = s"

text \<open>\<open>a or b\<close> on two \<open>Optional[str]\<close>: \<open>a\<close> when it is a non-empty string.\<close>

definition or_str :: "string option \<Rightarrow> string option \<Rightarrow> string option" where
  "or_str a b = (if or_empty a \<noteq> [] then a else b)"

text \<open>\<open>s.endswith(suffix)\<close> and \<open>s.split(sep)\<close> with no limit.\<close>

definition endswith :: "string \<Rightarrow> string \<Rightarrow> bool" where
  "endswith s suffix = startswith (rev s) (rev suffix)"

definition split_all :: "char \<Rightarrow> string \<Rightarrow> string list" where
  "split_all sep s = split_max sep (length s) s"

text \<open>\<open>xs[:n]\<close>: a negative \<open>n\<close> counts from the end.\<close>

definition slice_to :: "'a list \<Rightarrow> int \<Rightarrow> 'a list" where
  "slice_to xs n = (if 0 \<le> n then take (nat n) xs else take (length xs - nat (- n)) xs)"

text \<open>
  The frozen dataclass \<open>Job\<close>. The sitemap connector's class has one more field,
  \<open>description\<close>, which it never sets.
\<close>

record job =
  company :: string
  job_id :: string
  title :: string
  url :: string
  location :: "string option"

record ds_job = job +
  description :: "string option"

text \<open>
  The stable id of last resort, \<open>hashlib.sha256(url.encode()).hexdigest()[:16]\<close>. The
  digest function of \<open>hashlib\<close> is a parameter, \<open>sha256_hexdigest\<close>, of everything
  that hashes.
\<close>

definition url_hash :: "(string \<Rightarrow> string) \<Rightarrow> string \<Rightarrow> string" where
  "url_hash sha256_hexdigest u = take 16 (sha256_hexdigest u)"

text \<open>
  The identity resolver as the specification words it (the source has no such function;
  each connector writes the choice out): walk the preferred ids in order, take the first
  non-empty one, else the hash of the canonical URL; prefix the company and a colon.
\<close>

fun first_nonempty :: "string option list \<Rightarrow> string option" where
  "first_nonempty [] = None"
| "first_nonempty (x # xs) = (if or_empty x \<noteq> [] then x else first_nonempty xs)"

definition spec_resolve_id ::
  "(string \<Rightarrow> string) \<Rightarrow> string \<Rightarrow> string option list \<Rightarrow> string \<Rightarrow> string" where
  "spec_resolve_id sha256_hexdigest company_name preferred_ids canonical_url =
     company_name @ '':'' @
     (case first_nonempty preferred_ids of
        Some stable_id \<Rightarrow> stable_id
      | None \<Rightarrow> url_hash sha256_hexdigest canonical_url)"

text \<open>
  An ordered \<open>dict\<close> is an association list: \<open>d[k] = v\<close> is \<open>AList.update\<close> (a new key
  goes to the end, an old key keeps its place), \<open>d.values()\<close> is \<open>map snd\<close>, \<open>len(d)\<close>
  is \<open>length\<close>. One pass of a \<open>while\<close> loop ends in one of three ways.
\<close>

datatype 'a step = Continue 'a | Break 'a | Raise error

section \<open>The feed connector (connectors/mathworks.py)\<close>

text \<open>A feed entry is a mapping from field names to strings; \<open>entry.get(k)\<close> reads it.\<close>

type_synonym entry = "string \<rightharpoonup> string"

definition RSS_URL :: string where
  "RSS_URL = ''https://www.mathworks.com/company/jobs/opportunities/rss.xml''"

definition extract_location_from_entry :: "entry \<Rightarrow> string option" where
  "extract_location_from_entry e =
     (let loc = strip (or_empty (e ''locationname'')) in
      if loc \<noteq> [] then Some loc
      else (let city = strip (or_empty (e ''city''));
                state = strip (or_empty (e ''state''));
                country = strip (or_empty (e ''country''))
            in normalize_location (Some country) (Some state) (Some city)))"

text \<open>The body of the loop over the entries: \<open>None\<close> is \<open>continue\<close>.\<close>

definition mathworks_job :: "(string \<Rightarrow> string) \<Rightarrow> entry \<Rightarrow> job option" where
  "mathworks_job sha256_hexdigest e =
     (let title = strip (or_empty (e ''title''));
          url = or_empty (e ''link'')
      in if title = [] \<or> url = [] then None
         else (let stable_id = url_hash sha256_hexdigest url;
                   location = extract_location_from_entry e
               in Some \<lparr>company = ''MathWorks'', job_id = ''MathWorks:'' @ stable_id,
                         title = title, url = url, location = location\<rparr>))"

text \<open>
  \<open>get\<close> is the request with \<open>raise_for_status\<close>; \<open>parse_feed\<close> is \<open>feedparser.parse\<close>
  followed by \<open>.entries\<close>, which does not raise.
\<close>

definition scrape_mathworks ::
  "(string \<Rightarrow> string) \<Rightarrow> (string \<Rightarrow> error + string) \<Rightarrow> (string \<Rightarrow> entry list) \<Rightarrow> error + job list" where
  "scrape_mathworks sha256_hexdigest get parse_feed =
     (case get RSS_URL of
        Inl e \<Rightarrow> Inl e
      | Inr content \<Rightarrow> Inr (List.map_filter (mathworks_job sha256_hexdigest) (parse_feed content)))"

section \<open>The paginated connector (connectors/amazon.py)\<close>

text \<open>
  An item of the \<open>jobs\<close> array, by the keys the connector reads. The text fields hold a
  string or nothing, the two id fields any scalar. \<open>j_locations\<close> is the \<open>locations\<close>
  list (empty when the key is missing or is not a list); an element of it is a dict of
  strings, a string (JSON to decode), or something else. \<open>json_loads\<close> is
  \<open>json.loads\<close>, \<open>None\<close> when it raises.
\<close>

datatype amazon_loc = LocDict "string \<rightharpoonup> string" | LocStr string | LocOther

record amazon_item =
  j_title :: "string option"
  j_job_path :: "string option"
  j_id :: pyval
  j_job_id :: pyval
  j_locations :: "amazon_loc list"
  j_country_code :: "string option"
  j_state :: "string option"
  j_city :: "string option"

text \<open>
  The decoded reply: the \<open>jobs\<close> list (empty when the key is missing) and \<open>hits\<close> when
  it is an int.
\<close>

record response =
  resp_jobs :: "amazon_item list"
  resp_hits :: "int option"

definition BASE :: string where
  "BASE = ''https://www.amazon.jobs''"

definition extract_amazon_location :: "(string \<Rightarrow> amazon_loc option) \<Rightarrow> amazon_item \<Rightarrow> string option" where
  "extract_amazon_location json_loads j =
     (let fallback = normalize_location (j_country_code j) (j_state j) (j_city j) in
      case j_locations j of
        [] \<Rightarrow> fallback
      | first # _ \<Rightarrow>
          (let first = (case first of
                          LocStr s \<Rightarrow> (case json_loads s of None \<Rightarrow> LocOther | Some v \<Rightarrow> v)
                        | _ \<Rightarrow> first)
           in case first of
                LocDict d \<Rightarrow>
                  (let city = or_str (d ''normalizedCityName'') (d ''city'');
                       state = or_str (d ''region'') (d ''normalizedStateName'');
                       country = or_str (d ''countryIso2a'') (d ''normalizedCountryCode'')
                   in normalize_location country state city)
              | _ \<Rightarrow> fallback))"

text \<open>The body of the loop over the items of a page: \<open>None\<close> is \<open>continue\<close>.\<close>

definition amazon_job ::
  "(string \<Rightarrow> string) \<Rightarrow> (string \<Rightarrow> amazon_loc option) \<Rightarrow> amazon_item \<Rightarrow> job option" where
  "amazon_job sha256_hexdigest json_loads j =
     (let title = strip (or_empty (j_title j));
          job_path = or_empty (j_job_path j)
      in if title = [] \<or> job_path = [] then None
         else (let url = BASE @ job_path;
                   stable = py_str (py_or (py_or (j_id j) (j_job_id j))
                                          (PStr (url_hash sha256_hexdigest url)));
                   job_id = ''Amazon:'' @ stable;
                   location = extract_amazon_location json_loads j
               in Some \<lparr>company = ''Amazon'', job_id = job_id, title = title, url = url,
                         location = location\<rparr>))"

fun collect_page ::
  "(string \<Rightarrow> string) \<Rightarrow> (string \<Rightarrow> amazon_loc option) \<Rightarrow> amazon_item list \<Rightarrow>
   (string \<times> job) list \<Rightarrow> (string \<times> job) list" where
  "collect_page sha256_hexdigest json_loads [] all_jobs = all_jobs"
| "collect_page sha256_hexdigest json_loads (j # js) all_jobs =
     (case amazon_job sha256_hexdigest json_loads j of
        None \<Rightarrow> collect_page sha256_hexdigest json_loads js all_jobs
      | Some jb \<Rightarrow>
          collect_page sha256_hexdigest json_loads js (AList.update (job_id jb) jb all_jobs))"

record amazon_state =
  all_jobs :: "(string \<times> job) list"
  offset :: nat
  pages_fetched :: nat
  consecutive_no_new :: nat

text \<open>
  \<open>request k off\<close> is the outcome of \<open>_request\<close> for the request number \<open>k\<close> of the run
  (counted from 0), made at offset \<open>off\<close>: the decoded reply, or the exception of the
  transport, of \<open>raise_for_status\<close> or of the JSON decoder. The other query parameters do
  not change during a run. One pass of \<open>while True\<close>:
\<close>

definition amazon_iteration ::
  "(string \<Rightarrow> string) \<Rightarrow> (string \<Rightarrow> amazon_loc option) \<Rightarrow> (nat \<Rightarrow> nat \<Rightarrow> error + response) \<Rightarrow>
   int option \<Rightarrow> amazon_state \<Rightarrow> amazon_state step" where
  "amazon_iteration sha256_hexdigest json_loads request max_pages st =
     (if (case max_pages of None \<Rightarrow> False | Some m \<Rightarrow> m \<le> int (pages_fetched st))
      then Break st
      else case request (pages_fetched st) (offset st) of
        Inl e \<Rightarrow> Raise e
      | Inr data \<Rightarrow>
          if resp_jobs data = [] then Break st
          else (let before_count = length (all_jobs st);
                    st = st\<lparr>all_jobs :=
                              collect_page sha256_hexdigest json_loads (resp_jobs data) (all_jobs st)\<rparr>;
                    st = st\<lparr>pages_fetched := pages_fetched st + 1\<rparr>;
                    st = (if length (all_jobs st) = before_count
                          then st\<lparr>consecutive_no_new := consecutive_no_new st + 1\<rparr>
                          else st\<lparr>consecutive_no_new := 0\<rparr>)
                in if 3 \<le> consecutive_no_new st then Break st
                   else (let st = st\<lparr>offset := offset st + length (resp_jobs data)\<rparr> in
                         if (case resp_hits data of None \<Rightarrow> False | Some h \<Rightarrow> h \<le> int (offset st))
                         then Break st
                         else Continue st)))"

partial_function (option) amazon_loop ::
  "(string \<Rightarrow> string) \<Rightarrow> (string \<Rightarrow> amazon_loc option) \<Rightarrow> (nat \<Rightarrow> nat \<Rightarrow> error + response) \<Rightarrow>
   int option \<Rightarrow> amazon_state \<Rightarrow> (error + amazon_state) option" where
  "amazon_loop sha256_hexdigest json_loads request max_pages st =
     (case amazon_iteration sha256_hexdigest json_loads request max_pages st of
        Continue st' \<Rightarrow> amazon_loop sha256_hexdigest json_loads request max_pages st'
      | Break st' \<Rightarrow> Some (Inr st')
      | Raise e \<Rightarrow> Some (Inl e))"

declare amazon_loop.simps [code]

definition amazon_init :: amazon_state where
  "amazon_init = \<lparr>all_jobs = [], offset = 0, pages_fetched = 0, consecutive_no_new = 0\<rparr>"

text \<open>\<open>None\<close>: the loop does not end. \<open>Some (Inl e)\<close>: the exception \<open>e\<close> leaves the function.\<close>

definition scrape_amazon ::
  "(string \<Rightarrow> string) \<Rightarrow> (string \<Rightarrow> amazon_loc option) \<Rightarrow> (nat \<Rightarrow> nat \<Rightarrow> error + response) \<Rightarrow>
   int option \<Rightarrow> (error + job list) option" where
  "scrape_amazon sha256_hexdigest json_loads request max_pages =
     (case amazon_loop sha256_hexdigest json_loads request max_pages amazon_init of
        None \<Rightarrow> None
      | Some (Inl e) \<Rightarrow> Some (Inl e)
      | Some (Inr st) \<Rightarrow> Some (Inr (map snd (all_jobs st))))"

section \<open>The sitemap connector (connectors/dassault.py)\<close>

text \<open>
  The collaborators of the connector are the fields of an environment:
  \<^item> \<open>get\<close> is \<open>_get\<close>: the body of the page, or the exception of the transport or of
    \<open>raise_for_status\<close>;
  \<^item> \<open>parse_xml\<close> is \<open>ET.fromstring\<close> followed by \<open>root.iter()\<close>: the elements in
    document order, each with its tag and its text, or \<open>None\<close> when the parser raises;
  \<^item> \<open>urlparse\<close> is \<open>urllib.parse.urlparse\<close>, \<open>None\<close> when it raises;
  \<^item> \<open>job_path_match\<close> is \<open>JOB_PATH_RE.match\<close>, as a truth value;
  \<^item> \<open>soup_h1\<close> and \<open>soup_title\<close> are the stripped text of the first \<open>h1\<close> and
    \<open>title\<close> elements of the parsed page (\<open>None\<close> when there is none), \<open>soup_text\<close>
    is \<open>soup.get_text("\n", strip=True)\<close>;
  \<^item> \<open>refid_search\<close>, \<open>location_search\<close> and \<open>numeric_id_search\<close> are group 1 of
    the first match of \<open>REFID_RE\<close>, \<open>LOCATION_RE\<close> and \<open>NUMERIC_ID_RE\<close>
    (\<open>None\<close> when there is no match);
  \<^item> \<open>sha256_hex\<close> is the digest function.
\<close>

record xml_element =
  tag :: string
  el_text :: "string option"

record parsed_url =
  u_scheme :: string
  u_netloc :: string
  u_path :: string

record ds_env =
  get :: "string \<Rightarrow> error + string"
  parse_xml :: "string \<Rightarrow> xml_element list option"
  urlparse :: "string \<Rightarrow> parsed_url option"
  job_path_match :: "string \<Rightarrow> bool"
  soup_h1 :: "string \<Rightarrow> string option"
  soup_title :: "string \<Rightarrow> string option"
  soup_text :: "string \<Rightarrow> string"
  refid_search :: "string \<Rightarrow> string option"
  location_search :: "string \<Rightarrow> string option"
  numeric_id_search :: "string \<Rightarrow> string option"
  sha256_hex :: "string \<Rightarrow> string"

definition COMPANY :: string where
  "COMPANY = ''Dassault Systemes''"

definition SITEMAP_INDEX :: string where
  "SITEMAP_INDEX = ''https://www.3ds.com/sitemap/sitemap.xml''"

definition is_job_url :: "ds_env \<Rightarrow> string \<Rightarrow> bool" where
  "is_job_url env u =
     (case urlparse env u of
        None \<Rightarrow> False
      | Some p \<Rightarrow>
          if \<not> startswith (u_scheme p) ''http'' then False
          else if \<not> endswith (lower (u_netloc p)) ''3ds.com'' then False
          else job_path_match env (u_path p))"

definition tag_name :: "string \<Rightarrow> string" where
  "tag_name t = (if CHR ''}'' \<in> set t then last (split_all CHR ''}'' t) else t)"

text \<open>The values \<open>_iter_sitemap_locs\<close> yields; \<open>None\<close> when the parser raises.\<close>

definition iter_sitemap_locs :: "ds_env \<Rightarrow> string \<Rightarrow> string list option" where
  "iter_sitemap_locs env xml_text =
     (case parse_xml env xml_text of
        None \<Rightarrow> None
      | Some els \<Rightarrow>
          Some (List.map_filter
                  (\<lambda>el. if tag_name (tag el) = ''loc'' \<and> or_empty (el_text el) \<noteq> []
                        then Some (strip (or_empty (el_text el))) else None) els))"

text \<open>
  The state of \<open>_collect_job_urls_from_sitemaps\<close>: its four variables, and the list of
  the URLs passed to \<open>_get\<close> so far, oldest first, which the source does not keep.
\<close>

record sitemap_state =
  to_visit :: "string list"
  visited :: "string set"
  job_urls :: "string list"
  seen_jobs :: "string set"
  fetch_log :: "string list"

text \<open>The body of the loop over the \<open>loc\<close> values of one sitemap.\<close>

definition visit_loc :: "ds_env \<Rightarrow> string \<Rightarrow> sitemap_state \<Rightarrow> sitemap_state" where
  "visit_loc env loc st =
     (if endswith loc ''.xml'' \<and> contains loc ''/sitemap/''
      then (if loc \<notin> visited st then st\<lparr>to_visit := to_visit st @ [loc]\<rparr> else st)
      else if is_job_url env loc
      then (if loc \<notin> seen_jobs st
            then st\<lparr>seen_jobs := insert loc (seen_jobs st), job_urls := job_urls st @ [loc]\<rparr>
            else st)
      else st)"

text \<open>
  The condition of the \<open>while\<close> loop over the queue of sitemaps, and one pass of it:
  \<open>to_visit.pop(0)\<close> takes the head of the queue.
\<close>

definition sitemap_cond :: "int option \<Rightarrow> sitemap_state \<Rightarrow> bool" where
  "sitemap_cond max_sitemaps st =
     (to_visit st \<noteq> [] \<and>
      (case max_sitemaps of None \<Rightarrow> True | Some m \<Rightarrow> int (card (visited st)) < m))"

definition sitemap_iteration :: "ds_env \<Rightarrow> int option \<Rightarrow> sitemap_state \<Rightarrow> sitemap_state step" where
  "sitemap_iteration env max_sitemaps st =
     (if \<not> sitemap_cond max_sitemaps st then Break st
      else (let sm_url = hd (to_visit st);
                st = st\<lparr>to_visit := tl (to_visit st)\<rparr>
            in if sm_url \<in> visited st then Continue st
               else (let st = st\<lparr>visited := insert sm_url (visited st),
                                   fetch_log := fetch_log st @ [sm_url]\<rparr>
                     in case get env sm_url of
                          Inl e \<Rightarrow> Continue st
                        | Inr xml_text \<Rightarrow>
                            (case iter_sitemap_locs env xml_text of
                               None \<Rightarrow> Raise ParseError
                             | Some locs \<Rightarrow> Continue (fold (visit_loc env) locs st)))))"

partial_function (option) sitemap_loop ::
  "ds_env \<Rightarrow> int option \<Rightarrow> sitemap_state \<Rightarrow> (error + sitemap_state) option" where
  "sitemap_loop env max_sitemaps st =
     (case sitemap_iteration env max_sitemaps st of
        Continue st' \<Rightarrow> sitemap_loop env max_sitemaps st'
      | Break st' \<Rightarrow> Some (Inr st')
      | Raise e \<Rightarrow> Some (Inl e))"

declare sitemap_loop.simps [code]

definition sitemap_init :: sitemap_state where
  "sitemap_init = \<lparr>to_visit = [SITEMAP_INDEX], visited = {}, job_urls = [], seen_jobs = {},
                   fetch_log = []\<rparr>"

definition collect_job_urls_from_sitemaps :: "ds_env \<Rightarrow> int option \<Rightarrow> (error + string list) option" where
  "collect_job_urls_from_sitemaps env max_sitemaps =
     (case sitemap_loop env max_sitemaps sitemap_init of
        None \<Rightarrow> None
      | Some (Inl e) \<Rightarrow> Some (Inl e)
      | Some (Inr st) \<Rightarrow> Some (Inr (job_urls st)))"

definition normalize_ds_location :: "string \<Rightarrow> string option" where
  "normalize_ds_location loc_raw =
     (if loc_raw = [] then None
      else (let parts = filter (\<lambda>p. p \<noteq> []) (map strip (split_all CHR '','' loc_raw)) in
            case parts of
              [] \<Rightarrow> None
            | country_raw # _ \<Rightarrow>
                if lower country_raw \<in> {''united states'', ''us'', ''usa'', ''united states of america''}
                then (let state = (if 2 \<le> length parts then parts ! 1 else []);
                          city = (if 3 \<le> length parts then parts ! 2 else [])
                      in normalize_location (Some ''US'') (Some state) (Some city))
                else if 3 \<le> length parts
                then normalize_location (Some country_raw) (Some (parts ! 1)) (Some (parts ! 2))
                else (let city = (if 2 \<le> length parts then parts ! 1 else [])
                      in normalize_location (Some country_raw) (Some []) (Some city))))"

text \<open>
  \<open>_parse_job_detail\<close>: \<open>Inr None\<close> when the page has no title, \<open>Inl\<close> when
  \<open>urlparse\<close> raises.
\<close>

definition parse_job_detail :: "ds_env \<Rightarrow> string \<Rightarrow> string \<Rightarrow> error + ds_job option" where
  "parse_job_detail env html u =
     (let title = (case soup_h1 env html of None \<Rightarrow> [] | Some t \<Rightarrow> t);
          title = (if title = [] then (case soup_title env html of None \<Rightarrow> [] | Some t \<Rightarrow> t)
                   else title);
          title = strip title
      in if title = [] then Inr None
         else (let text = soup_text env html;
                   ref_id = map_option strip (refid_search env text);
                   loc_raw = map_option strip (location_search env text);
                   location_key = normalize_ds_location (or_empty loc_raw)
               in case urlparse env u of
                    None \<Rightarrow> Inl ValueError
                  | Some p \<Rightarrow>
                      (let url_id = numeric_id_search env (u_path p);
                           stable_id = or_empty (or_str (or_str ref_id url_id)
                                                        (Some (url_hash (sha256_hex env) u)));
                           job_id = COMPANY @ '':'' @ stable_id
                       in Inr (Some \<lparr>company = COMPANY, job_id = job_id, title = title, url = u,
                                      location = location_key, description = None\<rparr>))))"

text \<open>The loop of \<open>scrape_dassault\<close> over the job URLs, \<open>jobs\<close> being the dict so far.\<close>

fun fetch_details ::
  "ds_env \<Rightarrow> string list \<Rightarrow> (string \<times> ds_job) list \<Rightarrow> error + (string \<times> ds_job) list" where
  "fetch_details env [] jobs = Inr jobs"
| "fetch_details env (u # us) jobs =
     (case get env u of
        Inl e \<Rightarrow> fetch_details env us jobs
      | Inr html \<Rightarrow>
          (case parse_job_detail env html u of
             Inl e \<Rightarrow> Inl e
           | Inr None \<Rightarrow> fetch_details env us jobs
           | Inr (Some j) \<Rightarrow> fetch_details env us (AList.update (job_id j) j jobs)))"

definition scrape_dassault :: "ds_env \<Rightarrow> int option \<Rightarrow> int option \<Rightarrow> (error + ds_job list) option" where
  "scrape_dassault env max_jobs max_sitemaps =
     (case collect_job_urls_from_sitemaps env max_sitemaps of
        None \<Rightarrow> None
      | Some (Inl e) \<Rightarrow> Some (Inl e)
      | Some (Inr urls) \<Rightarrow>
          (let urls_to_fetch = (case max_jobs of None \<Rightarrow> urls | Some n \<Rightarrow> slice_to urls n)
           in case fetch_details env urls_to_fetch [] of
                Inl e \<Rightarrow> Some (Inl e)
              | Inr jobs \<Rightarrow> Some (Inr (map snd jobs))))"

section \<open>Predicates used in the statements\<close>

text \<open>A scalar id as a preferred id of the identity resolver: its \<open>str\<close> when it is truthy.\<close>

definition preferred :: "pyval \<Rightarrow> string option" where
  "preferred v = (if truthy v then Some (py_str v) else None)"

text \<open>
  A dict of jobs is keyed by job id: no key occurs twice and every job is stored under
  its own \<open>job_id\<close>.
\<close>

definition keyed :: "(string \<times> ('a job_scheme)) list \<Rightarrow> bool" where
  "keyed al = (distinct (map fst al) \<and> (\<forall>p\<in>set al. job_id (snd p) = fst p))"

text \<open>
  A location is canonical when the normalizer produces it for some country, state and
  city (nothing included, for three empty components).
\<close>

definition canonical_location :: "string option \<Rightarrow> bool" where
  "canonical_location loc = (\<exists>country state city. loc = normalize_location country state city)"

text \<open>
  The invariant of the sitemap traversal: the fetch log has no URL twice and holds exactly
  the visited URLs; the job URLs are pairwise different, are exactly the seen ones and all
  have the shape of a job URL; under a cap, no more sitemaps are visited than the cap.
\<close>

definition sitemap_inv :: "ds_env \<Rightarrow> int option \<Rightarrow> sitemap_state \<Rightarrow> bool" where
  "sitemap_inv env max_sitemaps st =
     (finite (visited st) \<and> distinct (fetch_log st) \<and> set (fetch_log st) = visited st \<and>
      distinct (job_urls st) \<and> set (job_urls st) = seen_jobs st \<and>
      list_all (is_job_url env) (job_urls st) \<and>
      (case max_sitemaps of None \<Rightarrow> True | Some m \<Rightarrow> int (card (visited st)) \<le> max m 0))"

section \<open>Example inputs\<close>

text \<open>
  The inputs of the examples below. \<open>example_digest\<close> stands for the digest function;
  the theorems hold for every digest function.
\<close>

definition example_digest :: "string \<Rightarrow> string" where
  "example_digest u = rev u @ replicate 64 CHR ''0''"

definition item_a :: amazon_item where
  "item_a = \<lparr>j_title = Some '' Engineer '', j_job_path = Some ''/en/jobs/42/engineer'',
              j_id = PNone, j_job_id = PInt 42,
              j_locations = [LocDict [''city'' \<mapsto> ''seattle'', ''region'' \<mapsto> ''wa'',
                                      ''countryIso2a'' \<mapsto> ''us'']],
              j_country_code = None, j_state = None, j_city = None\<rparr>"

definition item_b :: amazon_item where
  "item_b = \<lparr>j_title = Some ''Analyst'', j_job_path = Some ''/en/jobs/7/analyst'',
              j_id = PStr [], j_job_id = PNone, j_locations = [],
              j_country_code = Some ''de'', j_state = None, j_city = Some ''berlin''\<rparr>"

text \<open>A source that returns the same single item on every page, with a large hit count.\<close>

definition request_same :: "nat \<Rightarrow> nat \<Rightarrow> error + response" where
  "request_same k off = Inr \<lparr>resp_jobs = [item_a], resp_hits = Some 1000\<rparr>"

text \<open>A source whose first page holds three items, two of them the same job, and whose
  second page is empty.\<close>

definition request_two_pages :: "nat \<Rightarrow> nat \<Rightarrow> error + response" where
  "request_two_pages k off =
     (if k = 0 then Inr \<lparr>resp_jobs = [item_a, item_b, item_a], resp_hits = None\<rparr>
      else Inr \<lparr>resp_jobs = [], resp_hits = None\<rparr>)"


text \<open>A feed of two entries with the same link; the first carries a pre-formatted
  location.\<close>

definition entry_a :: entry where
  "entry_a = [''title'' \<mapsto> ''Developer'', ''link'' \<mapsto> ''https://example.org/job/1'',
              ''locationname'' \<mapsto> '' Remote '']"

definition entry_b :: entry where
  "entry_b = [''title'' \<mapsto> ''Tester'', ''link'' \<mapsto> ''https://example.org/job/1'',
              ''city'' \<mapsto> ''natick'', ''state'' \<mapsto> ''ma'', ''country'' \<mapsto> ''us'']"

definition feed_get :: "string \<Rightarrow> error + string" where
  "feed_get u = Inr ''feed''"

definition feed_entries :: "string \<Rightarrow> entry list" where
  "feed_entries content = [entry_a, entry_b]"

text \<open>
  A site whose root sitemap lists two nested sitemaps; the first nested sitemap lists a
  job page, the root again, the second nested sitemap, a job page that cannot be fetched
  and another page; the second nested sitemap, listed by two parents, cannot be fetched.
  In \<open>site_down\<close> nothing can be fetched.
\<close>

definition site :: ds_env where
  "site = \<lparr>
     get = (\<lambda>u. if u = SITEMAP_INDEX then Inr ''root''
                else if u = ''https://www.3ds.com/sitemap/a.xml'' then Inr ''a''
                else if u = ''https://www.3ds.com/careers/jobs/engineer-1'' then Inr ''page''
                else Inl TransportError),
     parse_xml = (\<lambda>b. if b = ''root''
                then Some [\<lparr>tag = ''{ns}sitemapindex'', el_text = None\<rparr>,
                           \<lparr>tag = ''{ns}loc'', el_text = Some '' https://www.3ds.com/sitemap/a.xml ''\<rparr>,
                           \<lparr>tag = ''{ns}loc'', el_text = Some ''https://www.3ds.com/sitemap/b.xml''\<rparr>]
                else if b = ''a''
                then Some [\<lparr>tag = ''loc'', el_text = Some ''https://www.3ds.com/careers/jobs/engineer-1''\<rparr>,
                           \<lparr>tag = ''loc'', el_text = Some ''https://www.3ds.com/sitemap/sitemap.xml''\<rparr>,
                           \<lparr>tag = ''loc'', el_text = Some ''https://www.3ds.com/sitemap/b.xml''\<rparr>,
                           \<lparr>tag = ''loc'', el_text = Some ''https://www.3ds.com/careers/jobs/gone-2''\<rparr>,
                           \<lparr>tag = ''loc'', el_text = Some ''https://www.3ds.com/other''\<rparr>]
                else None),
     urlparse = (\<lambda>u. if startswith u ''https://www.3ds.com''
                then Some \<lparr>u_scheme = ''https'', u_netloc = ''www.3ds.com'', u_path = drop 19 u\<rparr>
                else None),
     job_path_match = (\<lambda>p. startswith p ''/careers/jobs/''),
     soup_h1 = (\<lambda>h. Some ''Engineer''),
     soup_title = (\<lambda>h. None),
     soup_text = (\<lambda>h. h),
     refid_search = (\<lambda>t. None),
     location_search = (\<lambda>t. Some '' France, Velizy''),
     numeric_id_search = (\<lambda>p. Some [last p]),
     sha256_hex = example_digest\<rparr>"


section \<open>Properties of the string functions\<close>

lemmas char_defs = isspace_def islower_def isupper_def upper_char_def lower_char_def
  ascii_lowercase_def ascii_uppercase_def whitespace_def

lemmas str_defs = upper_def lower_def strip_def lstrip_def rstrip_def title_str_def replace_char_def



lemma takeWhile_sep: "sep \<notin> set a \<Longrightarrow> takeWhile (\<lambda>c. c \<noteq> sep) (a @ sep # rest) = a"
  by (induction a) auto

lemma dropWhile_sep:
  "sep \<notin> set a \<Longrightarrow> dropWhile (\<lambda>c. c \<noteq> sep) (a @ sep # rest) = sep # rest"
  by (induction a) auto

lemma length_split_max: "length (split_max sep n s) \<le> Suc n"
  by (induction n arbitrary: s) auto

lemma split_max_two:
  "sep \<notin> set a \<Longrightarrow> sep \<notin> set b \<Longrightarrow>
   split_max sep 2 (a @ sep # b @ sep # rest) = [a, b, rest]"
  by (simp add: numeral_2_eq_2 takeWhile_sep dropWhile_sep)

lemma cut_at_sep:
  "sep \<in> set s \<Longrightarrow>
   s = takeWhile (\<lambda>c. c \<noteq> sep) s @ sep # tl (dropWhile (\<lambda>c. c \<noteq> sep) s)"
  by (induction s) auto

lemma split_max_two_length:
  assumes "length (split_max sep 2 k) = 3"
  shows "\<exists>a b rest. k = a @ sep # b @ sep # rest \<and> sep \<notin> set a \<and> sep \<notin> set b"
proof -
  let ?a = "takeWhile (\<lambda>c. c \<noteq> sep) k"
  let ?r = "tl (dropWhile (\<lambda>c. c \<noteq> sep) k)"
  let ?b = "takeWhile (\<lambda>c. c \<noteq> sep) ?r"
  let ?t = "tl (dropWhile (\<lambda>c. c \<noteq> sep) ?r)"
  from assms have 1: "sep \<in> set k"
    by (auto simp: numeral_2_eq_2 split: if_splits)
  with assms have 2: "sep \<in> set ?r"
    by (auto simp: numeral_2_eq_2 split: if_splits)
  have "k = ?a @ sep # ?r" using 1 by (rule cut_at_sep)
  moreover have "?r = ?b @ sep # ?t" using 2 by (rule cut_at_sep)
  ultimately have "k = ?a @ sep # ?b @ sep # ?t" by simp
  moreover have "sep \<notin> set ?a" "sep \<notin> set ?b"
    by (auto dest: set_takeWhileD)
  ultimately show ?thesis by blast
qed

lemma upper_char_eq_hyphen [simp]: "upper_char c = CHR ''-'' \<longleftrightarrow> c = CHR ''-''"
  by (auto simp: char_defs split: if_splits)

lemma upper_Nil_iff [simp]: "upper s = [] \<longleftrightarrow> s = []"
  by (simp add: upper_def)

lemma hyphen_upper [simp]: "CHR ''-'' \<in> set (upper s) \<longleftrightarrow> CHR ''-'' \<in> set s"
  by (induction s) (auto simp: upper_def eq_commute [of "CHR ''-''"])



lemma title_Nil_iff [simp]: "title_str s = [] \<longleftrightarrow> s = []"
  by (cases s) (auto simp: title_str_def)

lemma collapse_ws_Nil_iff [simp]: "collapse_ws s = [] \<longleftrightarrow> s = []"
  by (cases s) auto

lemma replace_char_Nil_iff [simp]: "replace_char a b s = [] \<longleftrightarrow> s = []"
  by (simp add: replace_char_def)







section \<open>The location normalizer and the display formatter\<close>

lemma clean_city_eq:
  "clean_city city = replace_char CHR '' '' CHR ''_'' (title_str (collapse_ws (strip city)))"
  by (simp add: clean_city_def Let_def replace_char_def title_str_def)

lemma clean_city_Nil_iff: "clean_city city = [] \<longleftrightarrow> strip city = []"
  by (simp add: clean_city_eq)

lemma normalize_location_eq:
  "normalize_location country state city =
     (if strip (or_empty country) = [] \<and> strip (or_empty state) = [] \<and>
         strip (or_empty city) = []
      then None
      else Some (upper (strip (or_empty country)) @ ''-'' @ upper (strip (or_empty state)) @ ''-'' @
                 replace_char CHR '' '' CHR ''_'' (title_str (collapse_ws (strip (or_empty city))))))"
  by (simp add: normalize_location_def Let_def clean_city_Nil_iff) (simp add: clean_city_eq)

lemma display_location_key:
  assumes "CHR ''-'' \<notin> set country" and "CHR ''-'' \<notin> set state"
  shows "display_location (Some (country @ ''-'' @ state @ ''-'' @ city)) =
         replace_char CHR ''_'' CHR '' '' city @ '', '' @
         (if state = [] then [] else state @ '', '') @ country"
proof -
  have "split_max CHR ''-'' 2 (country @ ''-'' @ state @ ''-'' @ city) = [country, state, city]"
    using assms split_max_two [of "CHR ''-''" country state city] by simp
  then show ?thesis by (simp add: display_location_def Let_def)
qed

lemma display_location_other:
  "k \<noteq> [] \<Longrightarrow> length (split_max CHR ''-'' 2 k) \<noteq> 3 \<Longrightarrow> display_location (Some k) = k"
  by (auto simp: display_location_def split: list.splits)

section \<open>Identity resolution\<close>

lemma dec_not_Nil [simp]: "dec n \<noteq> []"
  by (subst dec.simps) simp

lemma py_str_truthy: "truthy v \<Longrightarrow> py_str v \<noteq> []"
  by (cases v) auto

lemma first_nonempty_all_empty:
  "(\<forall>x\<in>set ps. or_empty x = []) \<Longrightarrow> first_nonempty ps = None"
  by (induction ps) auto

lemma first_nonempty_Some:
  "first_nonempty ps = Some s \<Longrightarrow> s \<noteq> [] \<and> Some s \<in> set ps"
  by (induction ps) (auto simp: or_empty_def split: if_splits option.splits)

lemma first_nonempty_prefix:
  "(\<forall>x\<in>set ps. or_empty x = []) \<Longrightarrow> s \<noteq> [] \<Longrightarrow> first_nonempty (ps @ Some s # qs) = Some s"
  by (induction ps) (auto simp: or_empty_def)

lemma amazon_job_id:
  assumes "amazon_job H L it = Some j"
  shows "company j = ''Amazon'' \<and> url j = BASE @ or_empty (j_job_path it) \<and>
         job_id j = ''Amazon:'' @ py_str (py_or (py_or (j_id it) (j_job_id it)) (PStr (url_hash H (url j))))"
  using assms by (auto simp: amazon_job_def Let_def split: if_splits)

lemma mathworks_job_id:
  assumes "mathworks_job H e = Some j"
  shows "company j = ''MathWorks'' \<and> url j = or_empty (e ''link'') \<and> url j \<noteq> [] \<and>
         title j = strip (or_empty (e ''title'')) \<and> title j \<noteq> [] \<and>
         job_id j = ''MathWorks:'' @ url_hash H (url j) \<and>
         location j = extract_location_from_entry e"
  using assms by (auto simp: mathworks_job_def Let_def split: if_splits)

lemma parse_job_detail_id:
  assumes "parse_job_detail env html u = Inr (Some j)"
  shows "company j = COMPANY \<and> url j = u \<and>
         (\<exists>p. urlparse env u = Some p \<and>
           job_id j = COMPANY @ '':'' @
             or_empty (or_str (or_str (map_option strip (refid_search env (soup_text env html)))
                                      (numeric_id_search env (u_path p)))
                              (Some (url_hash (sha256_hex env) u)))) \<and>
         location j = normalize_ds_location
                        (or_empty (map_option strip (location_search env (soup_text env html))))"
  using assms by (auto simp: parse_job_detail_def Let_def split: if_splits option.splits)

lemma amazon_stable_resolve:
  "''Amazon:'' @ py_str (py_or (py_or a b) (PStr (url_hash H u))) =
   spec_resolve_id H ''Amazon'' [preferred a, preferred b] u"
  by (auto simp: spec_resolve_id_def preferred_def py_or_def or_empty_def py_str_truthy)

lemma ds_stable_resolve:
  "c @ '':'' @ or_empty (or_str (or_str a b) (Some (url_hash H u))) =
   spec_resolve_id H c [a, b] u"
  by (cases a; cases b) (auto simp: spec_resolve_id_def or_str_def or_empty_def)

section \<open>The paginated traversal\<close>

lemma set_update_subset: "set (AList.update k v al) \<subseteq> insert (k, v) (set al)"
  by (induction al) auto

lemma keyed_Nil [simp]: "keyed []"
  by (simp add: keyed_def)

lemma keyed_update: "keyed al \<Longrightarrow> job_id j = k \<Longrightarrow> keyed (AList.update k j al)"
  unfolding keyed_def using set_update_subset [of k j al]
  by (auto simp: distinct_update)

lemma keyed_distinct_job_ids: "keyed al \<Longrightarrow> distinct (map job_id (map snd al))"
proof -
  assume k: "keyed al"
  then have "map job_id (map snd al) = map fst al"
    by (auto simp: keyed_def)
  moreover from k have "distinct (map fst al)" by (simp add: keyed_def)
  ultimately show ?thesis by (simp only:)
qed

lemma all_update:
  "\<forall>p\<in>set al. P (snd p) \<Longrightarrow> P v \<Longrightarrow> \<forall>p\<in>set (AList.update k v al). P (snd p)"
  using set_update_subset [of k v al] by auto

lemma length_update:
  "length (AList.update k v al) = (if k \<in> fst ` set al then length al else Suc (length al))"
  by (induction al) auto

lemma update_same: "(k, v) \<in> set al \<Longrightarrow> distinct (map fst al) \<Longrightarrow> AList.update k v al = al"
  by (induction al) (auto simp: rev_image_eqI)

lemma collect_page_keyed: "keyed al \<Longrightarrow> keyed (collect_page H L items al)"
proof (induction items arbitrary: al)
  case Nil
  then show ?case by simp
next
  case (Cons it items)
  show ?case
  proof (cases "amazon_job H L it")
    case None
    with Cons show ?thesis by simp
  next
    case (Some j)
    with Cons show ?thesis by (simp add: keyed_update)
  qed
qed

lemma collect_page_all:
  assumes "\<forall>p\<in>set al. P (snd p)" and "\<And>it j. amazon_job H L it = Some j \<Longrightarrow> P j"
  shows "\<forall>p\<in>set (collect_page H L items al). P (snd p)"
  using assms(1)
proof (induction items arbitrary: al)
  case Nil
  then show ?case by simp
next
  case (Cons it items)
  show ?case
  proof (cases "amazon_job H L it")
    case None
    with Cons show ?thesis by simp
  next
    case (Some j)
    then have "P j" by (rule assms(2))
    with Cons.prems have "\<forall>p\<in>set (AList.update (job_id j) j al). P (snd p)"
      by (rule all_update)
    with Cons.IH Some show ?thesis by simp
  qed
qed

lemma collect_page_keys_mono: "fst ` set al \<subseteq> fst ` set (collect_page H L items al)"
proof (induction items arbitrary: al)
  case Nil
  then show ?case by simp
next
  case (Cons it items)
  show ?case
  proof (cases "amazon_job H L it")
    case None
    with Cons show ?thesis by simp
  next
    case (Some j)
    have "fst ` set al \<subseteq> fst ` set (AList.update (job_id j) j al)"
      by (auto simp: dom_update)
    also have "\<dots> \<subseteq> fst ` set (collect_page H L items (AList.update (job_id j) j al))"
      by (rule Cons.IH)
    finally show ?thesis using Some by simp
  qed
qed

text \<open>A page adds no new key exactly when the dict keeps its length.\<close>

lemma collect_page_length:
  assumes "distinct (map fst al)"
  shows "distinct (map fst (collect_page H L items al)) \<and>
         (length (collect_page H L items al) = length al \<longleftrightarrow>
          fst ` set (collect_page H L items al) = fst ` set al)"
proof -
  let ?al' = "collect_page H L items al"
  have d: "distinct (map fst ?al')"
    using assms
  proof (induction items arbitrary: al)
    case Nil
    then show ?case by simp
  next
    case (Cons it items)
    then show ?case by (cases "amazon_job H L it") (auto simp: distinct_update)
  qed
  have c: "card (fst ` set al) = length al"
    using assms distinct_card [of "map fst al"] by simp
  have c': "card (fst ` set ?al') = length ?al'"
    using d distinct_card [of "map fst ?al'"] by simp
  have sub: "fst ` set al \<subseteq> fst ` set ?al'" by (rule collect_page_keys_mono)
  have "length ?al' = length al \<longleftrightarrow> fst ` set ?al' = fst ` set al"
  proof
    assume "length ?al' = length al"
    then have "card (fst ` set ?al') = card (fst ` set al)" using c c' by simp
    with sub show "fst ` set ?al' = fst ` set al"
      by (metis card_subset_eq finite_imageI finite_set)
  next
    assume "fst ` set ?al' = fst ` set al"
    then show "length ?al' = length al" using c c' by simp
  qed
  with d show ?thesis by simp
qed


lemma amazon_iteration_page:
  assumes "\<not> (case mp of None \<Rightarrow> False | Some m \<Rightarrow> m \<le> int (pages_fetched st))"
    and "rq (pages_fetched st) (offset st) = Inr data"
    and "resp_jobs data \<noteq> []"
  shows "\<exists>st'. (amazon_iteration H L rq mp st = Continue st' \<or>
                amazon_iteration H L rq mp st = Break st') \<and>
           all_jobs st' = collect_page H L (resp_jobs data) (all_jobs st) \<and>
           pages_fetched st' = pages_fetched st + 1 \<and>
           consecutive_no_new st' =
             (if length (all_jobs st') = length (all_jobs st) then consecutive_no_new st + 1 else 0) \<and>
           (3 \<le> consecutive_no_new st' \<longrightarrow>
              amazon_iteration H L rq mp st = Break st' \<and> offset st' = offset st) \<and>
           (consecutive_no_new st' < 3 \<longrightarrow>
              offset st' = offset st + length (resp_jobs data) \<and>
              (amazon_iteration H L rq mp st = Break st' \<longleftrightarrow>
                 (case resp_hits data of None \<Rightarrow> False | Some h \<Rightarrow> h \<le> int (offset st'))))"
  using assms
  by (auto simp: amazon_iteration_def Let_def split: option.splits)

lemma amazon_iteration_state:
  assumes "amazon_iteration H L rq mp st = Continue st' \<or> amazon_iteration H L rq mp st = Break st'"
  shows "st' = st \<or>
    (\<exists>data. rq (pages_fetched st) (offset st) = Inr data \<and> resp_jobs data \<noteq> [] \<and>
       all_jobs st' = collect_page H L (resp_jobs data) (all_jobs st) \<and>
       pages_fetched st' = pages_fetched st + 1)"
  using assms
  by (auto simp: amazon_iteration_def Let_def split: sum.splits if_splits option.splits)

lemma amazon_loop_final:
  assumes run: "amazon_loop H L rq mp st = Some y"
    and init: "I st"
    and step: "\<And>s s'. I s \<Longrightarrow> amazon_iteration H L rq mp s = Continue s' \<Longrightarrow> I s'"
  shows "\<exists>s. I s \<and> (case y of Inr s' \<Rightarrow> amazon_iteration H L rq mp s = Break s'
                             | Inl e \<Rightarrow> amazon_iteration H L rq mp s = Raise e)"
proof -
  define P where "P = (\<lambda>H' L' rq' mp' s0 y0.
     H' = H \<longrightarrow> L' = L \<longrightarrow> rq' = rq \<longrightarrow> mp' = mp \<longrightarrow> I s0 \<longrightarrow>
     (\<exists>s. I s \<and> (case y0 of Inr s' \<Rightarrow> amazon_iteration H L rq mp s = Break s'
                             | Inl e \<Rightarrow> amazon_iteration H L rq mp s = Raise e)))"
  have "P H L rq mp st y"
  proof (rule amazon_loop.raw_induct [where P = P, OF _ run])
    fix f H' L' rq' mp' s0 y0
    assume IH: "\<And>H'' L'' rq'' mp'' s1 y1. f H'' L'' rq'' mp'' s1 = Some y1 \<Longrightarrow> P H'' L'' rq'' mp'' s1 y1"
      and body: "(case amazon_iteration H' L' rq' mp' s0 of
                    Continue st' \<Rightarrow> f H' L' rq' mp' st'
                  | Break st' \<Rightarrow> Some (Inr st')
                  | Raise e \<Rightarrow> Some (Inl e)) = Some y0"
    show "P H' L' rq' mp' s0 y0"
      unfolding P_def
    proof (intro impI)
      assume eqs: "H' = H" "L' = L" "rq' = rq" "mp' = mp" and I0: "I s0"
      show "\<exists>s. I s \<and> (case y0 of Inr s' \<Rightarrow> amazon_iteration H L rq mp s = Break s'
                             | Inl e \<Rightarrow> amazon_iteration H L rq mp s = Raise e)"
      proof (cases "amazon_iteration H L rq mp s0")
        case (Continue s1)
        with body eqs have "f H L rq mp s1 = Some y0" by simp
        from IH [OF this] step [OF I0 Continue] show ?thesis unfolding P_def by simp
      next
        case (Break s1)
        with body eqs have "y0 = Inr s1" by simp
        with Break I0 show ?thesis by auto
      next
        case (Raise e)
        with body eqs have "y0 = Inl e" by simp
        with Raise I0 show ?thesis by auto
      qed
    qed
  qed
  then show ?thesis using init unfolding P_def by simp
qed

lemma amazon_stalled_halts:
  assumes src: "\<And>k off. \<exists>h. rq k off = Inr \<lparr>resp_jobs = [it], resp_hits = h\<rparr>"
    and fixed: "collect_page H L [it] (all_jobs st) = all_jobs st"
    and n: "consecutive_no_new st + n = 2"
  shows "\<exists>st'. amazon_loop H L rq mp st = Some (Inr st') \<and>
           pages_fetched st' \<le> pages_fetched st + n + 1 \<and> all_jobs st' = all_jobs st"
  using fixed n
proof (induction n arbitrary: st)
  case 0
  show ?case
  proof (cases "case mp of None \<Rightarrow> False | Some m \<Rightarrow> m \<le> int (pages_fetched st)")
    case True
    then have "amazon_iteration H L rq mp st = Break st"
      by (simp add: amazon_iteration_def)
    then have "amazon_loop H L rq mp st = Some (Inr st)"
      by (subst amazon_loop.simps) simp
    then show ?thesis by simp
  next
    case False
    obtain h where rq: "rq (pages_fetched st) (offset st) = Inr \<lparr>resp_jobs = [it], resp_hits = h\<rparr>"
      using src by blast
    from amazon_iteration_page [where H = H and L = L and rq = rq and mp = mp and st = st
        and data = "\<lparr>resp_jobs = [it], resp_hits = h\<rparr>", OF False rq] "0.prems"
    obtain st' where st': "amazon_iteration H L rq mp st = Break st'"
      "all_jobs st' = all_jobs st" "pages_fetched st' = pages_fetched st + 1"
      by auto
    then have "amazon_loop H L rq mp st = Some (Inr st')"
      by (subst amazon_loop.simps) simp
    with st' show ?thesis by simp
  qed
next
  case (Suc n)
  show ?case
  proof (cases "case mp of None \<Rightarrow> False | Some m \<Rightarrow> m \<le> int (pages_fetched st)")
    case True
    then have "amazon_iteration H L rq mp st = Break st"
      by (simp add: amazon_iteration_def)
    then have "amazon_loop H L rq mp st = Some (Inr st)"
      by (subst amazon_loop.simps) simp
    then show ?thesis by simp
  next
    case False
    obtain h where rq: "rq (pages_fetched st) (offset st) = Inr \<lparr>resp_jobs = [it], resp_hits = h\<rparr>"
      using src by blast
    from amazon_iteration_page [where H = H and L = L and rq = rq and mp = mp and st = st
        and data = "\<lparr>resp_jobs = [it], resp_hits = h\<rparr>", OF False rq] Suc.prems
    obtain st' where r: "amazon_iteration H L rq mp st = Continue st' \<or>
        amazon_iteration H L rq mp st = Break st'"
      and st': "all_jobs st' = all_jobs st" "pages_fetched st' = pages_fetched st + 1"
        "consecutive_no_new st' = consecutive_no_new st + 1"
      by auto
    from r show ?thesis
    proof
      assume c: "amazon_iteration H L rq mp st = Continue st'"
      have "collect_page H L [it] (all_jobs st') = all_jobs st'"
        using Suc.prems(1) st'(1) by simp
      moreover have "consecutive_no_new st' + n = 2"
        using Suc.prems(2) st'(3) by simp
      ultimately obtain st'' where fin: "amazon_loop H L rq mp st' = Some (Inr st'')"
        "pages_fetched st'' \<le> pages_fetched st' + n + 1" "all_jobs st'' = all_jobs st'"
        using Suc.IH by blast
      from c fin(1) have "amazon_loop H L rq mp st = Some (Inr st'')"
        by (subst amazon_loop.simps) simp
      with fin st' show ?thesis by simp
    next
      assume b: "amazon_iteration H L rq mp st = Break st'"
      then have "amazon_loop H L rq mp st = Some (Inr st')"
        by (subst amazon_loop.simps) simp
      with st' show ?thesis by simp
    qed
  qed
qed

lemma collect_page_one_twice:
  "collect_page H L [it] (collect_page H L [it] []) = collect_page H L [it] []"
  by (cases "amazon_job H L it") auto

lemma amazon_same_item_halts:
  assumes src: "\<And>k off. \<exists>h. rq k off = Inr \<lparr>resp_jobs = [it], resp_hits = h\<rparr>"
  shows "\<exists>st'. amazon_loop H L rq mp amazon_init = Some (Inr st') \<and> pages_fetched st' \<le> 4 \<and>
           all_jobs st' = collect_page H L [it] [] \<or>
         amazon_loop H L rq mp amazon_init = Some (Inr amazon_init)"
proof (cases "case mp of None \<Rightarrow> False | Some m \<Rightarrow> m \<le> int (pages_fetched amazon_init)")
  case True
  then have "amazon_iteration H L rq mp amazon_init = Break amazon_init"
    by (simp add: amazon_iteration_def)
  then have "amazon_loop H L rq mp amazon_init = Some (Inr amazon_init)"
    by (subst amazon_loop.simps) simp
  then show ?thesis by simp
next
  case False
  obtain h where rq: "rq (pages_fetched amazon_init) (offset amazon_init) =
      Inr \<lparr>resp_jobs = [it], resp_hits = h\<rparr>"
    using src by blast
  from amazon_iteration_page [where H = H and L = L and rq = rq and mp = mp
      and st = amazon_init and data = "\<lparr>resp_jobs = [it], resp_hits = h\<rparr>", OF False rq]
  obtain st' where r: "amazon_iteration H L rq mp amazon_init = Continue st' \<or>
        amazon_iteration H L rq mp amazon_init = Break st'"
      and st': "all_jobs st' = collect_page H L [it] []" "pages_fetched st' = 1"
        "consecutive_no_new st' \<le> 1"
    by (auto simp: amazon_init_def split: if_splits)
  from r show ?thesis
  proof
    assume c: "amazon_iteration H L rq mp amazon_init = Continue st'"
    have "collect_page H L [it] (all_jobs st') = all_jobs st'"
      using st'(1) by (simp only: collect_page_one_twice)
    moreover have "consecutive_no_new st' + (2 - consecutive_no_new st') = 2"
      using st'(3) by simp
    ultimately obtain st'' where fin: "amazon_loop H L rq mp st' = Some (Inr st'')"
        "pages_fetched st'' \<le> pages_fetched st' + (2 - consecutive_no_new st') + 1"
        "all_jobs st'' = all_jobs st'"
      using amazon_stalled_halts [where H = H and L = L and rq = rq and mp = mp and it = it
          and st = st' and n = "2 - consecutive_no_new st'", OF src] by blast
    from c fin(1) have "amazon_loop H L rq mp amazon_init = Some (Inr st'')"
      by (subst amazon_loop.simps) simp
    moreover have "pages_fetched st'' \<le> 4" using fin(2) st' by simp
    ultimately show ?thesis using fin(3) st'(1) by simp
  next
    assume b: "amazon_iteration H L rq mp amazon_init = Break st'"
    then have "amazon_loop H L rq mp amazon_init = Some (Inr st')"
      by (subst amazon_loop.simps) simp
    with st' show ?thesis by simp
  qed
qed

section \<open>The sitemap traversal\<close>

lemma visit_loc_keeps:
  "visited (visit_loc env loc st) = visited st \<and> fetch_log (visit_loc env loc st) = fetch_log st"
  by (simp add: visit_loc_def)

lemma visit_loc_inv: "sitemap_inv env ms st \<Longrightarrow> sitemap_inv env ms (visit_loc env loc st)"
  by (auto simp: sitemap_inv_def visit_loc_def split: option.splits)

lemma fold_visit_loc_inv:
  "sitemap_inv env ms st \<Longrightarrow> sitemap_inv env ms (fold (visit_loc env) locs st)"
  by (induction locs arbitrary: st) (auto simp: visit_loc_inv)

lemma fold_visit_loc_keeps:
  "visited (fold (visit_loc env) locs st) = visited st \<and>
   fetch_log (fold (visit_loc env) locs st) = fetch_log st"
  by (induction locs arbitrary: st) (auto simp: visit_loc_keeps)

lemma sitemap_init_inv: "sitemap_inv env ms sitemap_init"
  by (auto simp: sitemap_inv_def sitemap_init_def split: option.splits)

lemma sitemap_iteration_Break: "sitemap_iteration env ms st = Break st' \<Longrightarrow> st' = st"
  by (auto simp: sitemap_iteration_def Let_def split: if_splits sum.splits option.splits)


text \<open>The three ways a pass can continue.\<close>

lemma sitemap_iteration_Continue:
  assumes "sitemap_iteration env ms st = Continue st'"
  obtains (seen) "sitemap_cond ms st" and "hd (to_visit st) \<in> visited st"
      and "st' = st\<lparr>to_visit := tl (to_visit st)\<rparr>"
  | (failed) e where "sitemap_cond ms st" and "hd (to_visit st) \<notin> visited st"
      and "get env (hd (to_visit st)) = Inl e"
      and "st' = st\<lparr>to_visit := tl (to_visit st),
                     visited := insert (hd (to_visit st)) (visited st),
                     fetch_log := fetch_log st @ [hd (to_visit st)]\<rparr>"
  | (fetched) xml_text locs where "sitemap_cond ms st" and "hd (to_visit st) \<notin> visited st"
      and "get env (hd (to_visit st)) = Inr xml_text"
      and "iter_sitemap_locs env xml_text = Some locs"
      and "st' = fold (visit_loc env) locs
                   (st\<lparr>to_visit := tl (to_visit st),
                       visited := insert (hd (to_visit st)) (visited st),
                       fetch_log := fetch_log st @ [hd (to_visit st)]\<rparr>)"
  using assms
  by (auto simp: sitemap_iteration_def Let_def split: if_splits sum.splits option.splits)

lemma sitemap_pop_inv:
  assumes "sitemap_inv env ms st" and "sitemap_cond ms st" and "u \<notin> visited st"
  shows "sitemap_inv env ms (st\<lparr>to_visit := q, visited := insert u (visited st),
                                 fetch_log := fetch_log st @ [u]\<rparr>)"
  using assms by (auto simp: sitemap_inv_def sitemap_cond_def split: option.splits)

lemma sitemap_iteration_inv:
  assumes inv: "sitemap_inv env ms st" and step: "sitemap_iteration env ms st = Continue st'"
  shows "sitemap_inv env ms st'"
  using step
proof (cases rule: sitemap_iteration_Continue)
  case seen
  with inv show ?thesis by (auto simp: sitemap_inv_def split: option.splits)
next
  case (failed e)
  with inv show ?thesis by (simp add: sitemap_pop_inv)
next
  case (fetched xml_text locs)
  with inv show ?thesis by (simp add: sitemap_pop_inv fold_visit_loc_inv)
qed

lemma sitemap_loop_final:
  assumes run: "sitemap_loop env ms st = Some y"
    and init: "I st"
    and step: "\<And>s s'. I s \<Longrightarrow> sitemap_iteration env ms s = Continue s' \<Longrightarrow> I s'"
  shows "\<exists>s. I s \<and> (case y of Inr s' \<Rightarrow> sitemap_iteration env ms s = Break s'
                             | Inl e \<Rightarrow> sitemap_iteration env ms s = Raise e)"
proof -
  define P where "P = (\<lambda>env' ms' s0 y0.
     env' = env \<longrightarrow> ms' = ms \<longrightarrow> I s0 \<longrightarrow>
     (\<exists>s. I s \<and> (case y0 of Inr s' \<Rightarrow> sitemap_iteration env ms s = Break s'
                             | Inl e \<Rightarrow> sitemap_iteration env ms s = Raise e)))"
  have "P env ms st y"
  proof (rule sitemap_loop.raw_induct [where P = P, OF _ run])
    fix f env' ms' s0 y0
    assume IH: "\<And>env'' ms'' s1 y1. f env'' ms'' s1 = Some y1 \<Longrightarrow> P env'' ms'' s1 y1"
      and body: "(case sitemap_iteration env' ms' s0 of
                    Continue st' \<Rightarrow> f env' ms' st'
                  | Break st' \<Rightarrow> Some (Inr st')
                  | Raise e \<Rightarrow> Some (Inl e)) = Some y0"
    show "P env' ms' s0 y0"
      unfolding P_def
    proof (intro impI)
      assume eqs: "env' = env" "ms' = ms" and I0: "I s0"
      show "\<exists>s. I s \<and> (case y0 of Inr s' \<Rightarrow> sitemap_iteration env ms s = Break s'
                             | Inl e \<Rightarrow> sitemap_iteration env ms s = Raise e)"
      proof (cases "sitemap_iteration env ms s0")
        case (Continue s1)
        with body eqs have "f env ms s1 = Some y0" by simp
        from IH [OF this] step [OF I0 Continue] show ?thesis unfolding P_def by simp
      next
        case (Break s1)
        with body eqs have "y0 = Inr s1" by simp
        with Break I0 show ?thesis by auto
      next
        case (Raise e)
        with body eqs have "y0 = Inl e" by simp
        with Raise I0 show ?thesis by auto
      qed
    qed
  qed
  then show ?thesis using init unfolding P_def by simp
qed

lemma sitemap_loop_inv:
  assumes "sitemap_loop env ms sitemap_init = Some (Inr st)"
  shows "sitemap_inv env ms st"
proof -
  from sitemap_loop_final [OF assms, of "sitemap_inv env ms"]
  obtain s where "sitemap_inv env ms s" "sitemap_iteration env ms s = Break st"
    using sitemap_init_inv sitemap_iteration_inv by auto
  then show ?thesis using sitemap_iteration_Break by blast
qed


text \<open>With a cap the traversal ends: a pass either shortens the queue or visits a new sitemap.\<close>

lemma sitemap_loop_terminates:
  assumes "finite (visited st)"
  shows "\<exists>y. sitemap_loop env (Some m) st = Some y"
proof -
  have wf: "wf (inv_image (less_than <*lex*> less_than)
         (\<lambda>st. (nat m - card (visited st), length (to_visit st))))"
    by (intro wf_inv_image wf_lex_prod wf_less_than)
  show ?thesis
    using assms
  proof (induction st rule: wf_induct_rule [OF wf])
  case (1 st)
  show ?case
  proof (cases "sitemap_iteration env (Some m) st")
    case (Break st')
    then show ?thesis by (subst sitemap_loop.simps) simp
  next
    case (Raise e)
    then show ?thesis by (subst sitemap_loop.simps) simp
  next
    case (Continue st')
    have "finite (visited st') \<and>
          (nat m - card (visited st') < nat m - card (visited st) \<or>
           nat m - card (visited st') = nat m - card (visited st) \<and>
           length (to_visit st') < length (to_visit st))"
      using Continue
    proof (cases rule: sitemap_iteration_Continue)
      case seen
      then show ?thesis using "1.prems" by (auto simp: sitemap_cond_def)
    next
      case (failed e)
      then show ?thesis using "1.prems" by (auto simp: sitemap_cond_def)
    next
      case (fetched xml_text locs)
      then show ?thesis using "1.prems" by (auto simp: sitemap_cond_def fold_visit_loc_keeps)
    qed
    then have "\<exists>y. sitemap_loop env (Some m) st' = Some y"
      using "1.IH" by auto
    with Continue show ?thesis by (subst sitemap_loop.simps) simp
  qed
  qed
qed


lemma parse_job_detail_Inl: "parse_job_detail env html u = Inl e \<Longrightarrow> urlparse env u = None"
  by (auto simp: parse_job_detail_def Let_def split: if_splits option.splits)



lemma fetch_details_invariant:
  assumes "I jobs"
    and "\<And>html u j al. I al \<Longrightarrow> parse_job_detail env html u = Inr (Some j) \<Longrightarrow>
           I (AList.update (job_id j) j al)"
    and "fetch_details env us jobs = Inr js"
  shows "I js"
  using assms(1,3)
proof (induction us arbitrary: jobs)
  case Nil
  then show ?case by simp
next
  case (Cons u us)
  show ?case
  proof (cases "get env u")
    case (Inl e)
    with Cons show ?thesis by simp
  next
    case (Inr html)
    show ?thesis
    proof (cases "parse_job_detail env html u")
      case (Inl e)
      with Cons.prems Inr show ?thesis by simp
    next
      case r: (Inr r)
      show ?thesis
      proof (cases r)
        case None
        with Cons Inr r show ?thesis by simp
      next
        case (Some j)
        with r Cons.prems(1) have "I (AList.update (job_id j) j jobs)"
          using assms(2) by blast
        with Cons.IH Cons.prems(2) Inr r Some show ?thesis by simp
      qed
    qed
  qed
qed

lemma fetch_details_keyed:
  assumes "keyed jobs" and "fetch_details env us jobs = Inr js"
  shows "keyed js"
proof (rule fetch_details_invariant [where I = keyed, OF assms(1) _ assms(2)])
  fix html u j and al :: "(string \<times> ds_job) list"
  assume "keyed al"
  then show "keyed (AList.update (job_id j) j al)" by (rule keyed_update) simp
qed

lemma fetch_details_all:
  assumes "\<forall>p\<in>set jobs. P (snd p)"
    and "\<And>html u j. parse_job_detail env html u = Inr (Some j) \<Longrightarrow> P j"
    and "fetch_details env us jobs = Inr js"
  shows "\<forall>p\<in>set js. P (snd p)"
proof (rule fetch_details_invariant [where I = "\<lambda>al. \<forall>p\<in>set al. P (snd p)", OF assms(1) _ assms(3)])
  fix html u j and al :: "(string \<times> ds_job) list"
  assume a: "\<forall>p\<in>set al. P (snd p)" and b: "parse_job_detail env html u = Inr (Some j)"
  from b have "P j" by (rule assms(2))
  with a show "\<forall>p\<in>set (AList.update (job_id j) j al). P (snd p)"
    by (rule all_update)
qed

text \<open>When the required fields are there, each connector makes a job, with the resolver's id.\<close>

lemma amazon_job_makes:
  assumes "strip (or_empty (j_title it)) \<noteq> []" and "or_empty (j_job_path it) \<noteq> []"
  shows "\<exists>j. amazon_job H L it = Some j \<and> url j = BASE @ or_empty (j_job_path it) \<and>
           job_id j = spec_resolve_id H ''Amazon''
                        [preferred (j_id it), preferred (j_job_id it)] (url j)"
proof -
  from assms obtain j where j: "amazon_job H L it = Some j"
    by (simp add: amazon_job_def Let_def)
  from amazon_job_id [OF j]
  have "url j = BASE @ or_empty (j_job_path it)"
    and "job_id j = ''Amazon:'' @
           py_str (py_or (py_or (j_id it) (j_job_id it)) (PStr (url_hash H (url j))))"
    by simp_all
  then have "url j = BASE @ or_empty (j_job_path it) \<and>
           job_id j = spec_resolve_id H ''Amazon''
                        [preferred (j_id it), preferred (j_job_id it)] (url j)"
    by (simp only: amazon_stable_resolve)
  with j show ?thesis by blast
qed

lemma mathworks_job_makes:
  assumes "strip (or_empty (e ''title'')) \<noteq> []" and "or_empty (e ''link'') \<noteq> []"
  shows "\<exists>j. mathworks_job H e = Some j \<and> url j = or_empty (e ''link'') \<and>
           job_id j = spec_resolve_id H ''MathWorks'' [] (url j)"
proof -
  from assms obtain j where j: "mathworks_job H e = Some j"
    by (simp add: mathworks_job_def Let_def)
  from mathworks_job_id [OF j] have "url j = or_empty (e ''link'') \<and>
      job_id j = spec_resolve_id H ''MathWorks'' [] (url j)"
    by (simp add: spec_resolve_id_def)
  with j show ?thesis by blast
qed

lemma parse_job_detail_None:
  "parse_job_detail env html u = Inr None \<longleftrightarrow>
   strip (if or_empty (soup_h1 env html) = [] then or_empty (soup_title env html)
          else or_empty (soup_h1 env html)) = []"
  by (auto simp: parse_job_detail_def Let_def or_empty_def split: option.splits if_splits)

lemma parse_job_detail_makes:
  assumes "strip (if or_empty (soup_h1 env html) = [] then or_empty (soup_title env html)
                  else or_empty (soup_h1 env html)) \<noteq> []"
    and "urlparse env u = Some p"
  shows "\<exists>j. parse_job_detail env html u = Inr (Some j) \<and> url j = u \<and>
           job_id j = spec_resolve_id (sha256_hex env) COMPANY
             [map_option strip (refid_search env (soup_text env html)),
              numeric_id_search env (u_path p)] u"
proof -
  have "\<exists>j. parse_job_detail env html u = Inr (Some j)"
  proof (cases "parse_job_detail env html u")
    case (Inl e)
    then have "urlparse env u = None" by (rule parse_job_detail_Inl)
    with assms(2) show ?thesis by simp
  next
    case (Inr r)
    show ?thesis
    proof (cases r)
      case None
      with Inr assms(1) show ?thesis by (simp add: parse_job_detail_None)
    next
      case (Some j)
      with Inr show ?thesis by simp
    qed
  qed
  then obtain j where j: "parse_job_detail env html u = Inr (Some j)" by blast
  from parse_job_detail_id [OF j] assms(2)
  have "url j = u" and "job_id j = COMPANY @ '':'' @
             or_empty (or_str (or_str (map_option strip (refid_search env (soup_text env html)))
                                      (numeric_id_search env (u_path p)))
                              (Some (url_hash (sha256_hex env) u)))"
    by auto
  then have "url j = u \<and> job_id j = spec_resolve_id (sha256_hex env) COMPANY
             [map_option strip (refid_search env (soup_text env html)),
              numeric_id_search env (u_path p)] u"
    by (simp only: ds_stable_resolve)
  with j show ?thesis by blast
qed

section \<open>Locations and the feed\<close>

lemma canonical_normalize [simp]: "canonical_location (normalize_location c s ci)"
  unfolding canonical_location_def by blast

lemma canonical_None [simp]: "canonical_location None"
proof -
  have "normalize_location None None None = None"
    by (simp add: normalize_location_def clean_city_def or_empty_def str_defs)
  then show ?thesis unfolding canonical_location_def by metis
qed

lemma canonical_hyphen: "canonical_location (Some k) \<Longrightarrow> CHR ''-'' \<in> set k"
  by (auto simp: canonical_location_def normalize_location_eq split: if_splits)

lemma normalize_ds_location_canonical: "canonical_location (normalize_ds_location raw)"
  by (auto simp: normalize_ds_location_def Let_def split: list.splits)

lemma extract_amazon_location_canonical: "canonical_location (extract_amazon_location L it)"
  by (auto simp: extract_amazon_location_def Let_def split: list.splits amazon_loc.splits option.splits)


lemma scrape_mathworks_Inr:
  "scrape_mathworks H g pf = Inr js \<longleftrightarrow>
     (\<exists>content. g RSS_URL = Inr content \<and> js = List.map_filter (mathworks_job H) (pf content))"
  by (auto simp: scrape_mathworks_def split: sum.splits)

lemma map_filter_mem:
  "j \<in> set (List.map_filter f xs) \<Longrightarrow> \<exists>x\<in>set xs. f x = Some j"
  by (auto simp: List.map_filter_def)

section \<open>What the connectors return\<close>

lemma amazon_loop_jobs:
  assumes "amazon_loop H L rq mp amazon_init = Some (Inr st)"
  shows "keyed (all_jobs st) \<and> (\<forall>p\<in>set (all_jobs st). \<exists>it. amazon_job H L it = Some (snd p))"
proof -
  define I where "I = (\<lambda>s::amazon_state. keyed (all_jobs s) \<and>
    (\<forall>p\<in>set (all_jobs s). \<exists>it. amazon_job H L it = Some (snd p)))"
  have pres: "I s'" if "I s"
    and "amazon_iteration H L rq mp s = Continue s' \<or> amazon_iteration H L rq mp s = Break s'"
    for s s'
  proof -
    from amazon_iteration_state [OF that(2)]
    consider "s' = s"
      | data :: response where "all_jobs s' = collect_page H L (resp_jobs data) (all_jobs s)"
      by blast
    then show ?thesis
    proof cases
      case 1
      with that(1) show ?thesis by simp
    next
      case 2
      have "keyed (all_jobs s')"
        using that(1) 2 by (simp add: I_def collect_page_keyed)
      moreover have "\<forall>p\<in>set (all_jobs s'). \<exists>it. amazon_job H L it = Some (snd p)"
        unfolding 2
      proof (rule collect_page_all)
        show "\<forall>p\<in>set (all_jobs s). \<exists>it. amazon_job H L it = Some (snd p)"
          using that(1) by (simp add: I_def)
      next
        fix it j assume "amazon_job H L it = Some j"
        then show "\<exists>it. amazon_job H L it = Some j" by blast
      qed
      ultimately show ?thesis by (simp add: I_def)
    qed
  qed
  have "I amazon_init" by (simp add: I_def amazon_init_def)
  from amazon_loop_final [OF assms, of I, OF this]
  obtain s where "I s" "amazon_iteration H L rq mp s = Break st"
    using pres by auto
  then have "I st" using pres by blast
  then show ?thesis by (simp add: I_def)
qed


lemma scrape_amazon_Inr:
  "scrape_amazon H L rq mp = Some (Inr js) \<longleftrightarrow>
   (\<exists>st. amazon_loop H L rq mp amazon_init = Some (Inr st) \<and> js = map snd (all_jobs st))"
  by (auto simp: scrape_amazon_def split: option.splits sum.splits)


lemma scrape_dassault_Inr:
  assumes "scrape_dassault env mj ms = Some (Inr djs)"
  shows "\<exists>jobs. keyed jobs \<and> djs = map snd jobs \<and>
           (\<forall>p\<in>set jobs. \<exists>html u. parse_job_detail env html u = Inr (Some (snd p)))"
proof -
  from assms obtain us jobs where f: "fetch_details env us [] = Inr jobs" and d: "djs = map snd jobs"
    by (auto simp: scrape_dassault_def Let_def split: option.splits sum.splits)
  have "keyed jobs" using keyed_Nil f by (rule fetch_details_keyed)
  moreover have "\<forall>p\<in>set jobs. \<exists>html u. parse_job_detail env html u = Inr (Some (snd p))"
  proof (rule fetch_details_all [where jobs = "[]", OF _ _ f])
    show "\<forall>p\<in>set []. \<exists>html u. parse_job_detail env html u = Inr (Some (snd p))" by simp
  next
    fix html u j assume "parse_job_detail env html u = Inr (Some j)"
    then show "\<exists>html u. parse_job_detail env html u = Inr (Some j)" by blast
  qed
  ultimately show ?thesis using d by blast
qed


section \<open>Claims about the location functions\<close>

text \<open>
  C10. For an absent key and for the empty string, \<open>display_location\<close> returns the fixed
  placeholder (eight bytes, not empty); the empty string is not returned unchanged.
\<close>

theorem display_location_placeholder:
  "display_location None = placeholder \<and> display_location (Some []) = placeholder \<and>
   length placeholder = 8 \<and> display_location (Some []) \<noteq> []"
  by (simp add: display_location_def placeholder_def)

text \<open>
  C7, as stated, at the empty key: the split gives one part, not three, and the key is not
  returned unchanged.
\<close>

theorem display_location_empty_key_changed:
  "length (split_max CHR ''-'' 2 []) \<noteq> 3 \<and> display_location (Some []) \<noteq> []"
  by (simp add: display_location_def placeholder_def numeral_2_eq_2)

text \<open>
  C7, amended: for a non-empty key, the split on the hyphen with at most two cuts gives at
  most three parts; when there are not exactly three, the key is returned unchanged; there
  are exactly three only if the key is \<open>country-state-city\<close> with no hyphen in the first
  two parts; and for such a key, whatever the third part is (hyphens included), the parts
  are these three and the result is the city with underscores turned into spaces, then
  the state unless it is empty, then the country, separated by a comma and a space.
\<close>

theorem display_location_parts:
  assumes "k \<noteq> []"
  shows "length (split_max CHR ''-'' 2 k) \<le> 3 \<and>
    (length (split_max CHR ''-'' 2 k) \<noteq> 3 \<longrightarrow> display_location (Some k) = k) \<and>
    (length (split_max CHR ''-'' 2 k) = 3 \<longrightarrow>
       (\<exists>country state city. k = country @ ''-'' @ state @ ''-'' @ city \<and>
          CHR ''-'' \<notin> set country \<and> CHR ''-'' \<notin> set state)) \<and>
    (\<forall>country state city.
       k = country @ ''-'' @ state @ ''-'' @ city \<and>
       CHR ''-'' \<notin> set country \<and> CHR ''-'' \<notin> set state \<longrightarrow>
       split_max CHR ''-'' 2 k = [country, state, city] \<and>
       display_location (Some k) =
         replace_char CHR ''_'' CHR '' '' city @ '', '' @
         (if state = [] then [] else state @ '', '') @ country)"
proof -
  have a: "length (split_max CHR ''-'' 2 k) \<le> 3"
    using length_split_max [of "CHR ''-''" 2 k] by simp
  have b: "length (split_max CHR ''-'' 2 k) \<noteq> 3 \<Longrightarrow> display_location (Some k) = k"
    using assms by (rule display_location_other)
  have c: "length (split_max CHR ''-'' 2 k) = 3 \<Longrightarrow>
       (\<exists>country state city. k = country @ ''-'' @ state @ ''-'' @ city \<and>
          CHR ''-'' \<notin> set country \<and> CHR ''-'' \<notin> set state)"
    using split_max_two_length [of "CHR ''-''" k] by simp
  have d: "split_max CHR ''-'' 2 k = [country, state, city] \<and>
       display_location (Some k) =
         replace_char CHR ''_'' CHR '' '' city @ '', '' @
         (if state = [] then [] else state @ '', '') @ country"
    if "k = country @ ''-'' @ state @ ''-'' @ city" "CHR ''-'' \<notin> set country"
       "CHR ''-'' \<notin> set state" for country state city
    using that split_max_two [of "CHR ''-''" country state city]
      display_location_key [of country state city] by simp
  show ?thesis using a b c d by blast
qed

theorem display_location_parts_witness:
  "display_location (Some ''FR--Saint-Denis_Sur_Mer'') = ''Saint-Denis Sur Mer, FR'' \<and>
   display_location (Some ''US-MA-Natick'') = ''Natick, MA, US'' \<and>
   display_location (Some ''US-MA'') = ''US-MA''"
proof -
  have "display_location (Some ''FR--Saint-Denis_Sur_Mer'') =
         replace_char CHR ''_'' CHR '' '' ''Saint-Denis_Sur_Mer'' @ '', '' @
         (if [] = ([]::string) then [] else [] @ '', '') @ ''FR''"
    by (rule display_location_parts [of "''FR--Saint-Denis_Sur_Mer''", THEN conjunct2,
          THEN conjunct2, THEN conjunct2, rule_format,
          of "''FR''" "[]" "''Saint-Denis_Sur_Mer''", THEN conjunct2]) simp_all
  then have 1: "display_location (Some ''FR--Saint-Denis_Sur_Mer'') = ''Saint-Denis Sur Mer, FR''"
    by (simp add: replace_char_def)
  have "display_location (Some ''US-MA-Natick'') =
         replace_char CHR ''_'' CHR '' '' ''Natick'' @ '', '' @
         (if ''MA'' = [] then [] else ''MA'' @ '', '') @ ''US''"
    by (rule display_location_parts [of "''US-MA-Natick''", THEN conjunct2,
          THEN conjunct2, THEN conjunct2, rule_format,
          of "''US''" "''MA''" "''Natick''", THEN conjunct2]) simp_all
  then have 2: "display_location (Some ''US-MA-Natick'') = ''Natick, MA, US''"
    by (simp add: replace_char_def)
  have 3: "display_location (Some ''US-MA'') = ''US-MA''"
    by (rule display_location_parts [of "''US-MA''", THEN conjunct2, THEN conjunct1, rule_format])
      (simp_all add: numeral_2_eq_2)
  show ?thesis using 1 2 3 by simp
qed







section \<open>Claims about identity resolution and the paginated traversal\<close>

text \<open>
  C6. Each connector derives the job id as the identity resolver of the specification
  does. An item of the paginated connector with a title and a path gives a job whose id
  is the resolver's for the company, the preferred ids \<open>id\<close> and \<open>job_id\<close> of the item
  and the URL; a detail page of the sitemap connector with a title (and a URL that
  parses) gives a job whose id is the resolver's for the reference id of the page, then
  the numeric suffix of the URL; a feed entry with a title and a link gives a job whose id
  is the resolver's with no preferred id; and a job never has another id. The resolver
  takes the first non-empty preferred id; when all are empty or absent the stable id is
  the first 16 characters of the digest of the URL; the job id is the company, a colon
  and the stable id. So with no preferred id the job id depends on the company and the
  URL only.
\<close>

theorem identity_resolution:
  "(strip (or_empty (j_title it)) \<noteq> [] \<and> or_empty (j_job_path it) \<noteq> [] \<longrightarrow>
      (\<exists>j. amazon_job H L it = Some j \<and> url j = BASE @ or_empty (j_job_path it) \<and>
         job_id j = spec_resolve_id H ''Amazon''
                      [preferred (j_id it), preferred (j_job_id it)] (url j))) \<and>
   (strip (if or_empty (soup_h1 env html) = [] then or_empty (soup_title env html)
           else or_empty (soup_h1 env html)) \<noteq> [] \<and> urlparse env u = Some p \<longrightarrow>
      (\<exists>dj. parse_job_detail env html u = Inr (Some dj) \<and> url dj = u \<and>
         job_id dj = spec_resolve_id (sha256_hex env) COMPANY
           [map_option strip (refid_search env (soup_text env html)),
            numeric_id_search env (u_path p)] u)) \<and>
   (parse_job_detail env html u \<noteq> Inr None \<and> urlparse env u = Some p \<longrightarrow>
      (\<exists>dj. parse_job_detail env html u = Inr (Some dj) \<and> url dj = u \<and>
         job_id dj = spec_resolve_id (sha256_hex env) COMPANY
           [map_option strip (refid_search env (soup_text env html)),
            numeric_id_search env (u_path p)] u)) \<and>
   (strip (or_empty (e ''title'')) \<noteq> [] \<and> or_empty (e ''link'') \<noteq> [] \<longrightarrow>
      (\<exists>mj. mathworks_job H e = Some mj \<and> url mj = or_empty (e ''link'') \<and>
         job_id mj = spec_resolve_id H ''MathWorks'' [] (url mj))) \<and>
   (amazon_job H L it = Some j \<longrightarrow>
      job_id j = spec_resolve_id H ''Amazon'' [preferred (j_id it), preferred (j_job_id it)] (url j)) \<and>
   (parse_job_detail env html u = Inr (Some dj) \<longrightarrow>
      (\<exists>p. urlparse env u = Some p \<and>
         job_id dj = spec_resolve_id (sha256_hex env) COMPANY
           [map_option strip (refid_search env (soup_text env html)),
            numeric_id_search env (u_path p)] u)) \<and>
   (mathworks_job H e = Some mj \<longrightarrow> job_id mj = spec_resolve_id H ''MathWorks'' [] (url mj)) \<and>
   (\<forall>ps s qs. (\<forall>x\<in>set ps. or_empty x = []) \<and> s \<noteq> [] \<longrightarrow>
      spec_resolve_id H c (ps @ Some s # qs) cu = c @ '':'' @ s) \<and>
   (\<forall>ps. (\<forall>x\<in>set ps. or_empty x = []) \<longrightarrow>
      spec_resolve_id H c ps cu = c @ '':'' @ take 16 (H cu))"
proof -
  have a': "\<exists>j. amazon_job H L it = Some j \<and> url j = BASE @ or_empty (j_job_path it) \<and>
         job_id j = spec_resolve_id H ''Amazon''
                      [preferred (j_id it), preferred (j_job_id it)] (url j)"
    if "strip (or_empty (j_title it)) \<noteq> []" "or_empty (j_job_path it) \<noteq> []"
    using that by (rule amazon_job_makes)
  have d': "\<exists>dj. parse_job_detail env html u = Inr (Some dj) \<and> url dj = u \<and>
         job_id dj = spec_resolve_id (sha256_hex env) COMPANY
           [map_option strip (refid_search env (soup_text env html)),
            numeric_id_search env (u_path p)] u"
    if "strip (if or_empty (soup_h1 env html) = [] then or_empty (soup_title env html)
           else or_empty (soup_h1 env html)) \<noteq> []" "urlparse env u = Some p"
    using that by (rule parse_job_detail_makes)
  have d'': "\<exists>dj. parse_job_detail env html u = Inr (Some dj) \<and> url dj = u \<and>
         job_id dj = spec_resolve_id (sha256_hex env) COMPANY
           [map_option strip (refid_search env (soup_text env html)),
            numeric_id_search env (u_path p)] u"
    if "parse_job_detail env html u \<noteq> Inr None" "urlparse env u = Some p"
  proof -
    from that(1) have "strip (if or_empty (soup_h1 env html) = [] then or_empty (soup_title env html)
           else or_empty (soup_h1 env html)) \<noteq> []"
      by (simp add: parse_job_detail_None)
    then show ?thesis using that(2) by (rule parse_job_detail_makes)
  qed
  have m': "\<exists>mj. mathworks_job H e = Some mj \<and> url mj = or_empty (e ''link'') \<and>
         job_id mj = spec_resolve_id H ''MathWorks'' [] (url mj)"
    if "strip (or_empty (e ''title'')) \<noteq> []" "or_empty (e ''link'') \<noteq> []"
    using that by (rule mathworks_job_makes)
  have a: "job_id j = spec_resolve_id H ''Amazon'' [preferred (j_id it), preferred (j_job_id it)] (url j)"
    if "amazon_job H L it = Some j"
    using amazon_job_id [OF that] amazon_stable_resolve [of "j_id it" "j_job_id it" H "url j"]
    by simp
  have d: "\<exists>p. urlparse env u = Some p \<and>
         job_id dj = spec_resolve_id (sha256_hex env) COMPANY
           [map_option strip (refid_search env (soup_text env html)),
            numeric_id_search env (u_path p)] u"
    if "parse_job_detail env html u = Inr (Some dj)"
  proof -
    from parse_job_detail_id [OF that]
    obtain p where p: "urlparse env u = Some p"
      and j: "job_id dj = COMPANY @ '':'' @
             or_empty (or_str (or_str (map_option strip (refid_search env (soup_text env html)))
                                      (numeric_id_search env (u_path p)))
                              (Some (url_hash (sha256_hex env) u)))"
      by blast
    from j have "job_id dj = spec_resolve_id (sha256_hex env) COMPANY
           [map_option strip (refid_search env (soup_text env html)),
            numeric_id_search env (u_path p)] u"
      by (simp only: ds_stable_resolve)
    with p show ?thesis by blast
  qed
  have m: "job_id mj = spec_resolve_id H ''MathWorks'' [] (url mj)"
    if "mathworks_job H e = Some mj"
    using mathworks_job_id [OF that] by (simp add: spec_resolve_id_def)
  have f: "spec_resolve_id H c (ps @ Some s # qs) cu = c @ '':'' @ s"
    if "\<forall>x\<in>set ps. or_empty x = []" "s \<noteq> []" for ps s qs
    using that by (simp add: spec_resolve_id_def first_nonempty_prefix)
  have n: "spec_resolve_id H c ps cu = c @ '':'' @ take 16 (H cu)"
    if "\<forall>x\<in>set ps. or_empty x = []" for ps
    using that by (simp add: spec_resolve_id_def first_nonempty_all_empty url_hash_def)
  show ?thesis
    by (intro conjI impI allI; (elim conjE)?)
      (rule a', assumption+, rule d', assumption+, rule d'', assumption+, rule m', assumption+,
       rule a, assumption, rule d, assumption, rule m, assumption, rule f, assumption+,
       rule n, assumption)
qed

theorem identity_resolution_witness:
  "(\<exists>j. amazon_job example_digest (\<lambda>s. None) item_a = Some j \<and> job_id j = ''Amazon:42'') \<and>
   (\<exists>j. amazon_job example_digest (\<lambda>s. None) item_b = Some j \<and>
        job_id j = ''Amazon:tsylana/7/sboj/n'') \<and>
   (\<exists>mj. mathworks_job example_digest entry_a = Some mj \<and>
         job_id mj = ''MathWorks:1/boj/gro.elpmax'') \<and>
   (\<exists>dj. parse_job_detail site ''page'' ''https://www.3ds.com/careers/jobs/engineer-1'' =
           Inr (Some dj) \<and> job_id dj = ''Dassault Systemes:1'') \<and>
   spec_resolve_id example_digest ''Acme'' [None, Some [], Some ''R-7'', Some ''8''] ''https://x/y'' = ''Acme:R-7'' \<and>
   spec_resolve_id example_digest ''Acme'' [None, Some []] ''https://x/y'' = ''Acme:y/x//:sptth00000''"
proof -
  note t = identity_resolution [where H = example_digest and L = "\<lambda>s. None"]
  have pa: "strip (or_empty (j_title item_a)) \<noteq> [] \<and> or_empty (j_job_path item_a) \<noteq> []"
    by code_simp
  have ra: "spec_resolve_id example_digest ''Amazon''
      [preferred (j_id item_a), preferred (j_job_id item_a)] (BASE @ or_empty (j_job_path item_a)) =
      ''Amazon:42''"
    by code_simp
  from t [where it = item_a, THEN conjunct1, rule_format, OF pa]
  obtain j where "amazon_job example_digest (\<lambda>s. None) item_a = Some j"
    "url j = BASE @ or_empty (j_job_path item_a)"
    "job_id j = spec_resolve_id example_digest ''Amazon''
                      [preferred (j_id item_a), preferred (j_job_id item_a)] (url j)"
    by blast
  then have 1: "\<exists>j. amazon_job example_digest (\<lambda>s. None) item_a = Some j \<and> job_id j = ''Amazon:42''"
    using ra by auto
  have pb: "strip (or_empty (j_title item_b)) \<noteq> [] \<and> or_empty (j_job_path item_b) \<noteq> []"
    by code_simp
  have rb: "spec_resolve_id example_digest ''Amazon''
      [preferred (j_id item_b), preferred (j_job_id item_b)] (BASE @ or_empty (j_job_path item_b)) =
      ''Amazon:tsylana/7/sboj/n''"
    by code_simp
  from t [where it = item_b, THEN conjunct1, rule_format, OF pb]
  obtain j where "amazon_job example_digest (\<lambda>s. None) item_b = Some j"
    "url j = BASE @ or_empty (j_job_path item_b)"
    "job_id j = spec_resolve_id example_digest ''Amazon''
                      [preferred (j_id item_b), preferred (j_job_id item_b)] (url j)"
    by blast
  then have 2: "\<exists>j. amazon_job example_digest (\<lambda>s. None) item_b = Some j \<and>
        job_id j = ''Amazon:tsylana/7/sboj/n''"
    using rb by auto
  have pm: "strip (or_empty (entry_a ''title'')) \<noteq> [] \<and> or_empty (entry_a ''link'') \<noteq> []"
    by code_simp
  have rm: "spec_resolve_id example_digest ''MathWorks'' [] (or_empty (entry_a ''link'')) =
      ''MathWorks:1/boj/gro.elpmax''"
    by code_simp
  from t [where e = entry_a, THEN conjunct2, THEN conjunct2, THEN conjunct2, THEN conjunct1,
      rule_format, OF pm]
  obtain mj where "mathworks_job example_digest entry_a = Some mj"
    "url mj = or_empty (entry_a ''link'')"
    "job_id mj = spec_resolve_id example_digest ''MathWorks'' [] (url mj)"
    by blast
  then have 3: "\<exists>mj. mathworks_job example_digest entry_a = Some mj \<and>
         job_id mj = ''MathWorks:1/boj/gro.elpmax''"
    using rm by auto
  let ?u = "''https://www.3ds.com/careers/jobs/engineer-1''"
  let ?p = "\<lparr>u_scheme = ''https'', u_netloc = ''www.3ds.com'', u_path = ''/careers/jobs/engineer-1''\<rparr>"
  have pd: "strip (if or_empty (soup_h1 site ''page'') = [] then or_empty (soup_title site ''page'')
           else or_empty (soup_h1 site ''page'')) \<noteq> [] \<and> urlparse site ?u = Some ?p"
    by code_simp
  have rd: "spec_resolve_id (sha256_hex site) COMPANY
           [map_option strip (refid_search site (soup_text site ''page'')),
            numeric_id_search site (u_path ?p)] ?u = ''Dassault Systemes:1''"
    by code_simp
  from t [where env = site and html = "''page''" and u = ?u and p = ?p,
      THEN conjunct2, THEN conjunct1, rule_format, OF pd]
  have 4: "\<exists>dj. parse_job_detail site ''page'' ?u = Inr (Some dj) \<and>
      job_id dj = ''Dassault Systemes:1''"
    unfolding rd by blast
  have e: "\<forall>x\<in>set [None, Some []]. or_empty x = []"
    by (simp add: or_empty_def)
  then have e': "(\<forall>x\<in>set [None, Some []]. or_empty x = []) \<and> ''R-7'' \<noteq> []"
    by simp
  note r = t [where c = "''Acme''" and cu = "''https://x/y''", THEN conjunct2, THEN conjunct2,
      THEN conjunct2, THEN conjunct2, THEN conjunct2, THEN conjunct2, THEN conjunct2]
  have "spec_resolve_id example_digest ''Acme'' ([None, Some []] @ Some ''R-7'' # [Some ''8''])
          ''https://x/y'' = ''Acme'' @ '':'' @ ''R-7''"
    using r [THEN conjunct1, THEN spec, THEN spec, THEN spec, THEN mp, OF e'] .
  then have 5: "spec_resolve_id example_digest ''Acme'' [None, Some [], Some ''R-7'', Some ''8'']
      ''https://x/y'' = ''Acme:R-7''"
    by simp
  have h: "take 16 (example_digest ''https://x/y'') = ''y/x//:sptth00000''"
    by code_simp
  have "spec_resolve_id example_digest ''Acme'' [None, Some []] ''https://x/y'' =
          ''Acme'' @ '':'' @ take 16 (example_digest ''https://x/y'')"
    using r [THEN conjunct2, THEN spec, THEN mp, OF e] .
  then have 6: "spec_resolve_id example_digest ''Acme'' [None, Some []] ''https://x/y'' =
      ''Acme:y/x//:sptth00000''"
    unfolding h by simp
  show ?thesis using 1 2 3 4 5 6 by blast
qed

text \<open>
  C5. In a pass of the paginated traversal that fetches a non-empty page, from a dict with
  pairwise different keys: the stall counter becomes its old value plus one when the page
  adds no new job id to the dict, and 0 when it adds one; and when the counter reaches 3
  the pass ends the loop, whatever hit count the page reports. When every request returns
  the same single item, whatever the hit counts and the page cap, the loop ends normally
  after at most 4 page fetches, and \<open>scrape_amazon\<close> returns at most one job.
\<close>

theorem amazon_stall_halts:
  "(distinct (map fst (all_jobs st)) \<and>
    \<not> (case mp of None \<Rightarrow> False | Some m \<Rightarrow> m \<le> int (pages_fetched st)) \<and>
    rq (pages_fetched st) (offset st) = Inr data \<and> resp_jobs data \<noteq> [] \<longrightarrow>
      (\<exists>st'. (amazon_iteration H L rq mp st = Continue st' \<or>
               amazon_iteration H L rq mp st = Break st') \<and>
         all_jobs st' = collect_page H L (resp_jobs data) (all_jobs st) \<and>
         distinct (map fst (all_jobs st')) \<and>
         consecutive_no_new st' =
           (if fst ` set (all_jobs st') = fst ` set (all_jobs st)
            then consecutive_no_new st + 1 else 0) \<and>
         (3 \<le> consecutive_no_new st' \<longrightarrow> amazon_iteration H L rq mp st = Break st') \<and>
         (amazon_iteration H L rq mp st = Continue st' \<longrightarrow> consecutive_no_new st' < 3))) \<and>
   ((\<forall>k off. \<exists>h. rq k off = Inr \<lparr>resp_jobs = [it], resp_hits = h\<rparr>) \<longrightarrow>
      (\<exists>st'. amazon_loop H L rq mp amazon_init = Some (Inr st') \<and> pages_fetched st' \<le> 4) \<and>
      (\<exists>js. scrape_amazon H L rq mp = Some (Inr js) \<and> length js \<le> 1))"
proof -
  have one: "\<exists>st'. (amazon_iteration H L rq mp st = Continue st' \<or>
               amazon_iteration H L rq mp st = Break st') \<and>
         all_jobs st' = collect_page H L (resp_jobs data) (all_jobs st) \<and>
         distinct (map fst (all_jobs st')) \<and>
         consecutive_no_new st' =
           (if fst ` set (all_jobs st') = fst ` set (all_jobs st)
            then consecutive_no_new st + 1 else 0) \<and>
         (3 \<le> consecutive_no_new st' \<longrightarrow> amazon_iteration H L rq mp st = Break st') \<and>
         (amazon_iteration H L rq mp st = Continue st' \<longrightarrow> consecutive_no_new st' < 3)"
    if d: "distinct (map fst (all_jobs st))"
      and c: "\<not> (case mp of None \<Rightarrow> False | Some m \<Rightarrow> m \<le> int (pages_fetched st))"
      and r: "rq (pages_fetched st) (offset st) = Inr data" and ne: "resp_jobs data \<noteq> []"
  proof -
    from amazon_iteration_page [where H = H and L = L and rq = rq and mp = mp and st = st
        and data = data, OF c r ne]
    obtain st' where st': "amazon_iteration H L rq mp st = Continue st' \<or>
                amazon_iteration H L rq mp st = Break st'"
      "all_jobs st' = collect_page H L (resp_jobs data) (all_jobs st)"
      "consecutive_no_new st' =
             (if length (all_jobs st') = length (all_jobs st) then consecutive_no_new st + 1 else 0)"
      "3 \<le> consecutive_no_new st' \<longrightarrow> amazon_iteration H L rq mp st = Break st'"
      "consecutive_no_new st' < 3 \<or> amazon_iteration H L rq mp st = Break st'"
      by (metis not_le)
    from collect_page_length [OF d, of H L "resp_jobs data"] st'(2)
    have len: "distinct (map fst (all_jobs st'))"
      "length (all_jobs st') = length (all_jobs st) \<longleftrightarrow>
       fst ` set (all_jobs st') = fst ` set (all_jobs st)"
      by simp_all
    have c3: "amazon_iteration H L rq mp st = Continue st' \<longrightarrow> consecutive_no_new st' < 3"
      using st'(5) by auto
    have cnt: "consecutive_no_new st' =
           (if fst ` set (all_jobs st') = fst ` set (all_jobs st)
            then consecutive_no_new st + 1 else 0)"
      using st'(3) len(2) by simp
    show ?thesis
      by (rule exI [of _ st']) (intro conjI st'(1) st'(2) len(1) cnt st'(4) c3)
  qed
  have two: "(\<exists>st'. amazon_loop H L rq mp amazon_init = Some (Inr st') \<and> pages_fetched st' \<le> 4) \<and>
      (\<exists>js. scrape_amazon H L rq mp = Some (Inr js) \<and> length js \<le> 1)"
    if src: "\<forall>k off. \<exists>h. rq k off = Inr \<lparr>resp_jobs = [it], resp_hits = h\<rparr>"
  proof -
    from src have src': "\<And>k off. \<exists>h. rq k off = Inr \<lparr>resp_jobs = [it], resp_hits = h\<rparr>"
      by blast
    have l1: "length (collect_page H L [it] []) \<le> 1"
      by (cases "amazon_job H L it") auto
    from amazon_same_item_halts [where H = H and L = L and rq = rq and mp = mp and it = it, OF src']
    consider st' where "amazon_loop H L rq mp amazon_init = Some (Inr st')"
        "pages_fetched st' \<le> 4" "all_jobs st' = collect_page H L [it] []"
      | "amazon_loop H L rq mp amazon_init = Some (Inr amazon_init)"
      by blast
    then show ?thesis
    proof cases
      case 1
      then show ?thesis using l1 by (auto simp: scrape_amazon_def)
    next
      case 2
      then show ?thesis by (auto simp: scrape_amazon_def amazon_init_def)
    qed
  qed
  show ?thesis using one two by blast
qed

theorem amazon_stall_halts_witness:
  "(\<exists>st'. amazon_loop example_digest (\<lambda>s. None) request_same None amazon_init = Some (Inr st') \<and>
          pages_fetched st' \<le> 4) \<and>
   map_option (map_sum id pages_fetched)
     (amazon_loop example_digest (\<lambda>s. None) request_same None amazon_init) = Some (Inr 4) \<and>
   (\<exists>st'. amazon_iteration example_digest (\<lambda>s. None) request_same None amazon_init = Continue st' \<and>
          consecutive_no_new st' = 0)"
proof -
  note t = amazon_stall_halts [where H = example_digest and L = "\<lambda>s. None" and rq = request_same
      and mp = None]
  have src: "\<exists>h. request_same k off = Inr \<lparr>resp_jobs = [item_a], resp_hits = h\<rparr>" for k off
    by (simp add: request_same_def)
  have 1: "\<exists>st'. amazon_loop example_digest (\<lambda>s. None) request_same None amazon_init = Some (Inr st') \<and>
          pages_fetched st' \<le> 4"
    using t [where it = item_a, THEN conjunct2, rule_format, OF src] by blast
  have 2: "map_option (map_sum id pages_fetched)
     (amazon_loop example_digest (\<lambda>s. None) request_same None amazon_init) = Some (Inr 4)"
    by code_simp
  define data where "data = \<lparr>resp_jobs = [item_a], resp_hits = Some 1000\<rparr>"
  have rj: "resp_jobs data = [item_a]" by (simp add: data_def)
  have aj: "all_jobs amazon_init = []" by (simp add: amazon_init_def)
  have pre: "distinct (map fst (all_jobs amazon_init)) \<and>
    \<not> (case None of None \<Rightarrow> False | Some m \<Rightarrow> m \<le> int (pages_fetched amazon_init)) \<and>
    request_same (pages_fetched amazon_init) (offset amazon_init) = Inr data \<and>
    resp_jobs data \<noteq> []"
    by (simp add: amazon_init_def request_same_def data_def)
  have ja: "collect_page example_digest (\<lambda>s. None) [item_a] [] \<noteq> []"
    by code_simp
  from t [where st = amazon_init and data = data, THEN conjunct1, rule_format, OF pre]
  obtain st' where st': "amazon_iteration example_digest (\<lambda>s. None) request_same None amazon_init = Continue st' \<or>
      amazon_iteration example_digest (\<lambda>s. None) request_same None amazon_init = Break st'"
    "all_jobs st' = collect_page example_digest (\<lambda>s. None) (resp_jobs data) (all_jobs amazon_init)"
    "consecutive_no_new st' =
           (if fst ` set (all_jobs st') = fst ` set (all_jobs amazon_init)
            then consecutive_no_new amazon_init + 1 else 0)"
    by blast
  have "fst ` set (all_jobs st') \<noteq> fst ` set (all_jobs amazon_init)"
    using st'(2) ja unfolding rj aj by simp
  with st'(3) have z: "consecutive_no_new st' = 0" by simp
  have "amazon_iteration example_digest (\<lambda>s. None) request_same None amazon_init \<noteq> Break st'"
    using z by (auto simp: amazon_iteration_def Let_def amazon_init_def request_same_def
        split: if_splits)
  with st'(1) z have 3: "\<exists>st'. amazon_iteration example_digest (\<lambda>s. None) request_same None amazon_init = Continue st' \<and>
          consecutive_no_new st' = 0"
    by blast
  show ?thesis using 1 2 3 by blast
qed

section \<open>Claims about the connectors\<close>

text \<open>
  C9. In the sitemap traversal every pass keeps the invariant: the fetch log has no URL
  twice and holds exactly the visited URLs. A pass whose URL is already visited fetches
  nothing; otherwise it fetches that URL, once. So when the traversal ends, no sitemap
  URL was fetched twice, and under a cap \<open>m\<close> at most \<open>m\<close> sitemaps were visited and
  fetched. With a cap the traversal always ends.
\<close>

theorem sitemap_fetched_once:
  "(sitemap_loop env ms sitemap_init = Some (Inr st) \<longrightarrow>
      distinct (fetch_log st) \<and> set (fetch_log st) = visited st \<and>
      (\<forall>m. ms = Some m \<longrightarrow> card (visited st) \<le> nat m \<and> length (fetch_log st) \<le> nat m)) \<and>
   (sitemap_inv env ms s \<and> sitemap_iteration env ms s = Continue s' \<longrightarrow>
      sitemap_inv env ms s' \<and>
      fetch_log s' = (if hd (to_visit s) \<in> visited s then fetch_log s
                      else fetch_log s @ [hd (to_visit s)])) \<and>
   sitemap_inv env ms sitemap_init \<and>
   (\<exists>y. sitemap_loop env (Some cap) sitemap_init = Some y)"
proof -
  have fin: "distinct (fetch_log st) \<and> set (fetch_log st) = visited st \<and>
      (\<forall>m. ms = Some m \<longrightarrow> card (visited st) \<le> nat m \<and> length (fetch_log st) \<le> nat m)"
    if "sitemap_loop env ms sitemap_init = Some (Inr st)"
  proof -
    from that have inv: "sitemap_inv env ms st" by (rule sitemap_loop_inv)
    then have d: "distinct (fetch_log st)" and v: "set (fetch_log st) = visited st"
      by (simp_all add: sitemap_inv_def)
    from d v have len: "length (fetch_log st) = card (visited st)"
      using distinct_card [of "fetch_log st"] by simp
    have "card (visited st) \<le> nat m" if "ms = Some m" for m
      using inv that by (auto simp: sitemap_inv_def)
    with d v len show ?thesis by simp
  qed
  have pass: "sitemap_inv env ms s' \<and>
      fetch_log s' = (if hd (to_visit s) \<in> visited s then fetch_log s
                      else fetch_log s @ [hd (to_visit s)])"
    if inv: "sitemap_inv env ms s" and step: "sitemap_iteration env ms s = Continue s'"
  proof -
    have "fetch_log s' = (if hd (to_visit s) \<in> visited s then fetch_log s
                      else fetch_log s @ [hd (to_visit s)])"
      using step by (cases rule: sitemap_iteration_Continue) (simp_all add: fold_visit_loc_keeps)
    with sitemap_iteration_inv [OF inv step] show ?thesis by simp
  qed
  have "finite (visited sitemap_init)" by (simp add: sitemap_init_def)
  then have "\<exists>y. sitemap_loop env (Some cap) sitemap_init = Some y"
    by (rule sitemap_loop_terminates)
  with fin pass sitemap_init_inv [of env ms] show ?thesis by blast
qed

theorem sitemap_fetched_once_witness:
  "(\<exists>st. sitemap_loop site (Some 2) sitemap_init = Some (Inr st) \<and>
      fetch_log st = [SITEMAP_INDEX, ''https://www.3ds.com/sitemap/a.xml''] \<and>
      distinct (fetch_log st) \<and> card (visited st) \<le> 2) \<and>
   map_option (map_sum id fetch_log) (sitemap_loop site None sitemap_init) =
     Some (Inr [SITEMAP_INDEX, ''https://www.3ds.com/sitemap/a.xml'',
                ''https://www.3ds.com/sitemap/b.xml''])"
proof -
  note t = sitemap_fetched_once [where env = site]
  have run: "map_option (map_sum id fetch_log) (sitemap_loop site (Some 2) sitemap_init) =
     Some (Inr [SITEMAP_INDEX, ''https://www.3ds.com/sitemap/a.xml''])"
    by code_simp
  then obtain st where st: "sitemap_loop site (Some 2) sitemap_init = Some (Inr st)"
    and log: "fetch_log st = [SITEMAP_INDEX, ''https://www.3ds.com/sitemap/a.xml'']"
    by (cases "sitemap_loop site (Some 2) sitemap_init"; cases "the (sitemap_loop site (Some 2) sitemap_init)")
      auto
  from t [where ms = "Some 2" and st = st, THEN conjunct1, rule_format, OF st]
  have "distinct (fetch_log st)" "card (visited st) \<le> 2"
    by simp_all
  with st log have 1: "\<exists>st. sitemap_loop site (Some 2) sitemap_init = Some (Inr st) \<and>
      fetch_log st = [SITEMAP_INDEX, ''https://www.3ds.com/sitemap/a.xml''] \<and>
      distinct (fetch_log st) \<and> card (visited st) \<le> 2"
    by blast
  have 2: "map_option (map_sum id fetch_log) (sitemap_loop site None sitemap_init) =
     Some (Inr [SITEMAP_INDEX, ''https://www.3ds.com/sitemap/a.xml'',
                ''https://www.3ds.com/sitemap/b.xml''])"
    by code_simp
  show ?thesis using 1 2 by blast
qed




text \<open>
  C2, as stated, on a feed of two entries with the same link: the feed connector returns
  two jobs with the same job id.
\<close>

theorem scrape_mathworks_duplicate_ids:
  "map_sum id (map job_id) (scrape_mathworks example_digest feed_get feed_entries) =
     Inr [''MathWorks:1/boj/gro.elpmax'', ''MathWorks:1/boj/gro.elpmax''] \<and>
   \<not> distinct [''MathWorks:1/boj/gro.elpmax'', ''MathWorks:1/boj/gro.elpmax'']"
proof -
  have "map_sum id (map job_id) (scrape_mathworks example_digest feed_get feed_entries) =
     Inr [''MathWorks:1/boj/gro.elpmax'', ''MathWorks:1/boj/gro.elpmax'']"
    by code_simp
  then show ?thesis by simp
qed

text \<open>
  C2, amended. The jobs returned by the paginated connector and by the sitemap connector
  have pairwise different job ids. The feed connector returns one job for every entry with
  a title and a link, in feed order, without removing duplicates. For all three, every job
  id is the company display name of the connector, a colon and a stable id (so it is not
  empty), and the company field of the job is that name.
\<close>

theorem job_ids:
  "(scrape_amazon H L rq mp = Some (Inr js) \<longrightarrow>
      distinct (map job_id js) \<and>
      (\<forall>j\<in>set js. company j = ''Amazon'' \<and> job_id j \<noteq> [] \<and>
                   (\<exists>stable. job_id j = company j @ '':'' @ stable))) \<and>
   (scrape_dassault env mj ms = Some (Inr djs) \<longrightarrow>
      distinct (map job_id djs) \<and>
      (\<forall>j\<in>set djs. company j = COMPANY \<and> job_id j \<noteq> [] \<and>
                    (\<exists>stable. job_id j = company j @ '':'' @ stable))) \<and>
   (scrape_mathworks H g pf = Inr mjs \<longrightarrow>
      (\<exists>content. g RSS_URL = Inr content \<and>
         mjs = List.map_filter (mathworks_job H) (pf content)) \<and>
      (\<forall>j\<in>set mjs. company j = ''MathWorks'' \<and> job_id j \<noteq> [] \<and>
                    job_id j = company j @ '':'' @ take 16 (H (url j))))"
proof -
  have a: "distinct (map job_id js) \<and>
      (\<forall>j\<in>set js. company j = ''Amazon'' \<and> job_id j \<noteq> [] \<and>
                   (\<exists>stable. job_id j = company j @ '':'' @ stable))"
    if "scrape_amazon H L rq mp = Some (Inr js)"
  proof -
    from that obtain st where st: "amazon_loop H L rq mp amazon_init = Some (Inr st)"
      and js: "js = map snd (all_jobs st)"
      by (auto simp: scrape_amazon_Inr)
    from amazon_loop_jobs [OF st] have k: "keyed (all_jobs st)"
      and src: "\<forall>p\<in>set (all_jobs st). \<exists>it. amazon_job H L it = Some (snd p)"
      by simp_all
    have "\<forall>j\<in>set js. company j = ''Amazon'' \<and> job_id j \<noteq> [] \<and>
                   (\<exists>stable. job_id j = company j @ '':'' @ stable)"
    proof
      fix j assume "j \<in> set js"
      with js src obtain it where "amazon_job H L it = Some j" by auto
      from amazon_job_id [OF this]
      show "company j = ''Amazon'' \<and> job_id j \<noteq> [] \<and>
            (\<exists>stable. job_id j = company j @ '':'' @ stable)"
        by auto
    qed
    moreover have "distinct (map job_id js)"
      unfolding js using k by (rule keyed_distinct_job_ids)
    ultimately show ?thesis by (rule conjI [rotated])
  qed
  have d: "distinct (map job_id djs) \<and>
      (\<forall>j\<in>set djs. company j = COMPANY \<and> job_id j \<noteq> [] \<and>
                    (\<exists>stable. job_id j = company j @ '':'' @ stable))"
    if "scrape_dassault env mj ms = Some (Inr djs)"
  proof -
    from scrape_dassault_Inr [OF that] obtain jobs where k: "keyed jobs"
      and djs: "djs = map snd jobs"
      and src: "\<forall>p\<in>set jobs. \<exists>html u. parse_job_detail env html u = Inr (Some (snd p))"
      by blast
    have "\<forall>j\<in>set djs. company j = COMPANY \<and> job_id j \<noteq> [] \<and>
                    (\<exists>stable. job_id j = company j @ '':'' @ stable)"
    proof
      fix j assume "j \<in> set djs"
      with djs obtain p where p: "p \<in> set jobs" "snd p = j" by auto
      from src p(1) have "\<exists>html u. parse_job_detail env html u = Inr (Some (snd p))"
        by (rule bspec)
      then obtain html u where "parse_job_detail env html u = Inr (Some j)"
        unfolding p(2) by blast
      from parse_job_detail_id [OF this]
      show "company j = COMPANY \<and> job_id j \<noteq> [] \<and>
            (\<exists>stable. job_id j = company j @ '':'' @ stable)"
        by (auto simp: COMPANY_def)
    qed
    moreover have "distinct (map job_id djs)"
      unfolding djs using k by (rule keyed_distinct_job_ids)
    ultimately show ?thesis by (rule conjI [rotated])
  qed
  have m: "(\<exists>content. g RSS_URL = Inr content \<and>
         mjs = List.map_filter (mathworks_job H) (pf content)) \<and>
      (\<forall>j\<in>set mjs. company j = ''MathWorks'' \<and> job_id j \<noteq> [] \<and>
                    job_id j = company j @ '':'' @ take 16 (H (url j)))"
    if "scrape_mathworks H g pf = Inr mjs"
  proof -
    from that obtain content where c: "g RSS_URL = Inr content"
      and mjs: "mjs = List.map_filter (mathworks_job H) (pf content)"
      by (auto simp: scrape_mathworks_Inr)
    have "company j = ''MathWorks'' \<and> job_id j \<noteq> [] \<and>
          job_id j = company j @ '':'' @ take 16 (H (url j))"
      if "j \<in> set mjs" for j
    proof -
      from that mjs obtain e where "mathworks_job H e = Some j"
        by (auto dest: map_filter_mem)
      from mathworks_job_id [OF this] show ?thesis by (auto simp: url_hash_def)
    qed
    with c mjs show ?thesis by blast
  qed
  show ?thesis using a d m by blast
qed

theorem job_ids_witness:
  "map_option (map_sum id (map job_id))
     (scrape_amazon example_digest (\<lambda>s. None) request_two_pages None) =
     Some (Inr [''Amazon:42'', ''Amazon:tsylana/7/sboj/n'']) \<and>
   (\<exists>js. scrape_amazon example_digest (\<lambda>s. None) request_two_pages None = Some (Inr js) \<and>
         distinct (map job_id js) \<and> (\<forall>j\<in>set js. company j = ''Amazon'')) \<and>
   (\<exists>djs. scrape_dassault site None None = Some (Inr djs) \<and> distinct (map job_id djs) \<and>
          map job_id djs = [''Dassault Systemes:1'']) \<and>
   (\<exists>mjs. scrape_mathworks example_digest feed_get feed_entries = Inr mjs \<and>
          (\<forall>j\<in>set mjs. company j = ''MathWorks'' \<and> job_id j = ''MathWorks:1/boj/gro.elpmax''))"
proof -
  note t = job_ids [where H = example_digest and L = "\<lambda>s. None" and env = site]
  have ra: "map_option (map_sum id (map job_id))
     (scrape_amazon example_digest (\<lambda>s. None) request_two_pages None) =
     Some (Inr [''Amazon:42'', ''Amazon:tsylana/7/sboj/n''])"
    by code_simp
  then obtain js where js: "scrape_amazon example_digest (\<lambda>s. None) request_two_pages None = Some (Inr js)"
    by (cases "scrape_amazon example_digest (\<lambda>s. None) request_two_pages None";
        cases "the (scrape_amazon example_digest (\<lambda>s. None) request_two_pages None)") auto
  from t [where rq = request_two_pages and mp = None, THEN conjunct1, rule_format, OF js] js
  have 2: "\<exists>js. scrape_amazon example_digest (\<lambda>s. None) request_two_pages None = Some (Inr js) \<and>
         distinct (map job_id js) \<and> (\<forall>j\<in>set js. company j = ''Amazon'')"
    by blast
  have rd: "map_option (map_sum id (map job_id)) (scrape_dassault site None None) =
     Some (Inr [''Dassault Systemes:1''])"
    by code_simp
  then obtain djs where djs: "scrape_dassault site None None = Some (Inr djs)"
    and ids: "map job_id djs = [''Dassault Systemes:1'']"
    by (cases "scrape_dassault site None None"; cases "the (scrape_dassault site None None)") auto
  from t [where mj = None and ms = None, THEN conjunct2, THEN conjunct1, rule_format, OF djs]
  have "distinct (map job_id djs)" by (rule conjunct1)
  with djs ids
  have 3: "\<exists>djs. scrape_dassault site None None = Some (Inr djs) \<and> distinct (map job_id djs) \<and>
          map job_id djs = [''Dassault Systemes:1'']"
    by (intro exI [of _ djs] conjI)
  have rm: "map_sum id (map url) (scrape_mathworks example_digest feed_get feed_entries) =
      Inr [''https://example.org/job/1'', ''https://example.org/job/1'']"
    by code_simp
  then obtain mjs where mjs: "scrape_mathworks example_digest feed_get feed_entries = Inr mjs"
    and urls: "map url mjs = [''https://example.org/job/1'', ''https://example.org/job/1'']"
    by (cases "scrape_mathworks example_digest feed_get feed_entries") auto
  have h: "take 16 (example_digest ''https://example.org/job/1'') = ''1/boj/gro.elpmax''"
    by code_simp
  have u: "url j = ''https://example.org/job/1''" if "j \<in> set mjs" for j
  proof -
    from that have "url j \<in> set (map url mjs)" by simp
    then show ?thesis unfolding urls by auto
  qed
  from t [where g = feed_get and pf = feed_entries, THEN conjunct2, THEN conjunct2, rule_format, OF mjs]
  have "\<forall>j\<in>set mjs. company j = ''MathWorks'' \<and>
      job_id j = company j @ '':'' @ take 16 (example_digest (url j))"
    by blast
  with u h have "\<forall>j\<in>set mjs. company j = ''MathWorks'' \<and> job_id j = ''MathWorks:1/boj/gro.elpmax''"
    by auto
  with mjs have 4: "\<exists>mjs. scrape_mathworks example_digest feed_get feed_entries = Inr mjs \<and>
          (\<forall>j\<in>set mjs. company j = ''MathWorks'' \<and> job_id j = ''MathWorks:1/boj/gro.elpmax'')"
    by blast
  show ?thesis using ra 2 3 4 by blast
qed

text \<open>
  C8, as stated, on a feed whose first entry carries the pre-formatted location
  \<open>Remote\<close>: the job gets that string as its location, and the normalizer produces it
  for no country, state and city (its keys contain a hyphen).
\<close>

theorem scrape_mathworks_location_verbatim:
  "map_sum id (map location) (scrape_mathworks example_digest feed_get feed_entries) =
     Inr [Some ''Remote'', Some ''US-MA-Natick''] \<and>
   \<not> canonical_location (Some ''Remote'')"
proof -
  have "map_sum id (map location) (scrape_mathworks example_digest feed_get feed_entries) =
     Inr [Some ''Remote'', Some ''US-MA-Natick'']"
    by code_simp
  moreover have "\<not> canonical_location (Some ''Remote'')"
    using canonical_hyphen [of "''Remote''"] by auto
  ultimately show ?thesis by simp
qed

text \<open>
  C8, amended. Every job of the paginated connector and of the sitemap connector has a
  location that the normalizer produces (nothing, or a key). A job of the feed connector
  has the trimmed pre-formatted location of its entry, as it is, when that is not empty,
  and otherwise what the normalizer produces from the trimmed country, state and city of
  the entry.
\<close>

theorem job_locations:
  "(scrape_amazon H L rq mp = Some (Inr js) \<longrightarrow> (\<forall>j\<in>set js. canonical_location (location j))) \<and>
   (scrape_dassault env mj ms = Some (Inr djs) \<longrightarrow>
      (\<forall>j\<in>set djs. canonical_location (location j))) \<and>
   (scrape_mathworks H g pf = Inr mjs \<longrightarrow>
      (\<forall>j\<in>set mjs. \<exists>content. g RSS_URL = Inr content \<and>
         (\<exists>e\<in>set (pf content). mathworks_job H e = Some j \<and>
            location j =
              (if strip (or_empty (e ''locationname'')) \<noteq> []
               then Some (strip (or_empty (e ''locationname'')))
               else normalize_location (Some (strip (or_empty (e ''country''))))
                      (Some (strip (or_empty (e ''state''))))
                      (Some (strip (or_empty (e ''city''))))))))"
proof -
  have a: "\<forall>j\<in>set js. canonical_location (location j)"
    if "scrape_amazon H L rq mp = Some (Inr js)"
  proof
    fix j assume j: "j \<in> set js"
    from that obtain st where st: "amazon_loop H L rq mp amazon_init = Some (Inr st)"
      and js: "js = map snd (all_jobs st)"
      by (auto simp: scrape_amazon_Inr)
    from amazon_loop_jobs [OF st] j js obtain it where "amazon_job H L it = Some j"
      by auto
    then have "location j = extract_amazon_location L it"
      by (auto simp: amazon_job_def Let_def split: if_splits)
    then show "canonical_location (location j)"
      by (simp add: extract_amazon_location_canonical)
  qed
  have d: "\<forall>j\<in>set djs. canonical_location (location j)"
    if "scrape_dassault env mj ms = Some (Inr djs)"
  proof
    fix j assume j: "j \<in> set djs"
    from scrape_dassault_Inr [OF that]
    obtain jobs :: "(string \<times> ds_job) list" where djs: "djs = map snd jobs"
      and src: "\<forall>p\<in>set jobs. \<exists>html u. parse_job_detail env html u = Inr (Some (snd p))"
      by blast
    from j djs obtain p where p: "p \<in> set jobs" "snd p = j" by auto
    from src p(1) have "\<exists>html u. parse_job_detail env html u = Inr (Some (snd p))"
      by (rule bspec)
    then obtain html u where "parse_job_detail env html u = Inr (Some j)"
      unfolding p(2) by blast
    from parse_job_detail_id [OF this] show "canonical_location (location j)"
      by (simp add: normalize_ds_location_canonical)
  qed
  have m: "\<forall>j\<in>set mjs. \<exists>content. g RSS_URL = Inr content \<and>
         (\<exists>e\<in>set (pf content). mathworks_job H e = Some j \<and>
            location j =
              (if strip (or_empty (e ''locationname'')) \<noteq> []
               then Some (strip (or_empty (e ''locationname'')))
               else normalize_location (Some (strip (or_empty (e ''country''))))
                      (Some (strip (or_empty (e ''state''))))
                      (Some (strip (or_empty (e ''city''))))))"
    if "scrape_mathworks H g pf = Inr mjs"
  proof
    fix j assume j: "j \<in> set mjs"
    from that obtain content where c: "g RSS_URL = Inr content"
      and mjs: "mjs = List.map_filter (mathworks_job H) (pf content)"
      by (auto simp: scrape_mathworks_Inr)
    from j mjs obtain e where e: "e \<in> set (pf content)" "mathworks_job H e = Some j"
      by (auto dest: map_filter_mem)
    from mathworks_job_id [OF e(2)] have "location j = extract_location_from_entry e" by simp
    then have "location j =
              (if strip (or_empty (e ''locationname'')) \<noteq> []
               then Some (strip (or_empty (e ''locationname'')))
               else normalize_location (Some (strip (or_empty (e ''country''))))
                      (Some (strip (or_empty (e ''state''))))
                      (Some (strip (or_empty (e ''city'')))))"
      by (simp add: extract_location_from_entry_def Let_def)
    with c e show "\<exists>content. g RSS_URL = Inr content \<and>
         (\<exists>e\<in>set (pf content). mathworks_job H e = Some j \<and>
            location j =
              (if strip (or_empty (e ''locationname'')) \<noteq> []
               then Some (strip (or_empty (e ''locationname'')))
               else normalize_location (Some (strip (or_empty (e ''country''))))
                      (Some (strip (or_empty (e ''state''))))
                      (Some (strip (or_empty (e ''city''))))))"
      by blast
  qed
  show ?thesis using a d m by blast
qed

theorem job_locations_witness:
  "map_option (map_sum id (map location))
     (scrape_amazon example_digest (\<lambda>s. None) request_two_pages None) =
     Some (Inr [Some ''US-WA-Seattle'', Some ''DE--Berlin'']) \<and>
   canonical_location (Some ''US-WA-Seattle'') \<and> canonical_location (Some ''DE--Berlin'') \<and>
   map_option (map_sum id (map location)) (scrape_dassault site None None) =
     Some (Inr [Some ''FRANCE--Velizy'']) \<and>
   canonical_location (Some ''FRANCE--Velizy'')"
proof -
  note t = job_locations [where H = example_digest and L = "\<lambda>s. None" and env = site]
  have ra: "map_option (map_sum id (map location))
     (scrape_amazon example_digest (\<lambda>s. None) request_two_pages None) =
     Some (Inr [Some ''US-WA-Seattle'', Some ''DE--Berlin''])"
    by code_simp
  then obtain js where js: "scrape_amazon example_digest (\<lambda>s. None) request_two_pages None = Some (Inr js)"
    and la: "map location js = [Some ''US-WA-Seattle'', Some ''DE--Berlin'']"
    by (cases "scrape_amazon example_digest (\<lambda>s. None) request_two_pages None";
        cases "the (scrape_amazon example_digest (\<lambda>s. None) request_two_pages None)") auto
  from t [where rq = request_two_pages and mp = None, THEN conjunct1, rule_format, OF js]
  have "\<forall>l\<in>set (map location js). canonical_location l" by simp
  then have 1: "canonical_location (Some ''US-WA-Seattle'') \<and> canonical_location (Some ''DE--Berlin'')"
    unfolding la by simp
  have rd: "map_option (map_sum id (map location)) (scrape_dassault site None None) =
     Some (Inr [Some ''FRANCE--Velizy''])"
    by code_simp
  then obtain djs where djs: "scrape_dassault site None None = Some (Inr djs)"
    and ld: "map location djs = [Some ''FRANCE--Velizy'']"
    by (cases "scrape_dassault site None None"; cases "the (scrape_dassault site None None)") auto
  from t [where mj = None and ms = None, THEN conjunct2, THEN conjunct1, rule_format, OF djs]
  have "\<forall>l\<in>set (map location djs). canonical_location l" by simp
  then have 2: "canonical_location (Some ''FRANCE--Velizy'')"
    unfolding ld by simp
  show ?thesis using ra 1 rd 2 by blast
qed

end
